theory Spec2Isabelle
  imports Complex_Main
begin

section \<open>JavaScript values\<close>

text \<open>
  A JavaScript string is a sequence of UTF-16 code units, so it is modelled as a list of
  code units (natural numbers). \<open>ascii\<close> embeds an ASCII literal; the rupee sign is the
  single code unit U+20B9.
\<close>

type_synonym jsstring = "nat list"

definition ascii :: "string \<Rightarrow> jsstring" where
  "ascii s = map of_char s"

definition RUPEE :: nat where
  "RUPEE = 0x20B9"

text \<open>
  The Number type. JavaScript numbers are IEEE-754 doubles. A finite number is kept as
  its exact decimal value \<open>m * 10 ^ e\<close> (every double has one) in canonical form:
  \<open>Dec 0 0\<close> for zero, otherwise a mantissa that is not a multiple of ten. The sign of
  zero is not kept (\<open>-0\<close> is \<open>0\<close>).
\<close>

datatype jsnum = NaN | PosInf | NegInf | Dec int int

datatype jsval = JUndefined | JNull | JBool bool | JNum jsnum | JStr jsstring

function norm_dec :: "int \<Rightarrow> int \<Rightarrow> int \<times> int" where
  "norm_dec m e =
     (if m = 0 then (0, 0)
      else if m mod 10 = 0 then norm_dec (m div 10) (e + 1)
      else (m, e))"
  by pat_completeness auto
termination
  by (relation "measure (\<lambda>(m, e). nat \<bar>m\<bar>)") auto

declare norm_dec.simps [simp del]

text \<open>
  Rounding to the nearest double, as IEEE-754 roundTiesToEven gives it. A positive
  rational \<open>x\<close> lies in the binade \<open>2 ^ ex \<le> x < 2 ^ (ex + 1)\<close>, where \<open>ex\<close> is at
  least \<open>-1022\<close>: below \<open>2 ^ -1022\<close> are the subnormal numbers, which share that
  exponent. The doubles of the binade are the multiples of \<open>2 ^ (ex - 52)\<close>; \<open>x\<close> is
  rounded to the nearest multiple \<open>n * 2 ^ (ex - 52)\<close>, to the one with the even \<open>n\<close>
  when it is half-way between two, and the result is an infinity when the rounded magnitude
  reaches \<open>2 ^ 1024\<close>. \<open>DBL_OVERFLOW\<close> is the least magnitude for which it does.

  \<open>binade x\<close> is that \<open>ex\<close>: for \<open>1 \<le> x\<close> the number of halvings that bring \<open>x\<close>
  below 2 (\<open>bin_up\<close>), for \<open>x < 1\<close> the number of doublings that bring it up to 1,
  counted downwards and at most 1022 of them (\<open>bin_down\<close>). \<open>pack_double neg ex n\<close> is
  the double with the sign \<open>neg\<close> and the magnitude \<open>n * 2 ^ (ex - 52)\<close>.
\<close>

function bin_up :: "rat \<Rightarrow> int" where
  "bin_up x = (if x < 2 then 0 else bin_up (x / 2) + 1)"
  by pat_completeness auto
termination
proof (relation "measure (\<lambda>x. nat \<lfloor>x\<rfloor>)")
  show "wf (measure (\<lambda>x::rat. nat \<lfloor>x\<rfloor>))"
    by simp
next
  fix x :: rat
  assume "\<not> x < 2"
  then have x: "2 \<le> x"
    by simp
  have "of_int \<lfloor>x / 2\<rfloor> \<le> x / 2"
    by (rule of_int_floor_le)
  moreover have "x - 1 < of_int \<lfloor>x\<rfloor>"
    by linarith
  ultimately have "(of_int \<lfloor>x / 2\<rfloor> :: rat) < of_int \<lfloor>x\<rfloor>"
    using x by linarith
  then have "\<lfloor>x / 2\<rfloor> < \<lfloor>x\<rfloor>"
    by (simp only: of_int_less_iff)
  moreover have "0 < \<lfloor>x\<rfloor>"
    using x by linarith
  ultimately show "(x / 2, x) \<in> measure (\<lambda>x. nat \<lfloor>x\<rfloor>)"
    by simp
qed

declare bin_up.simps [simp del]

fun bin_down :: "nat \<Rightarrow> rat \<Rightarrow> int" where
  "bin_down 0 x = 0"
| "bin_down (Suc k) x = (if 1 \<le> x then 0 else bin_down k (2 * x) - 1)"

definition binade :: "rat \<Rightarrow> int" where
  "binade x = (if 1 \<le> x then bin_up x else bin_down 1022 x)"

definition round_half_even :: "rat \<Rightarrow> int" where
  "round_half_even y =
     (if y - of_int \<lfloor>y\<rfloor> < 1 / 2 then \<lfloor>y\<rfloor>
      else if 1 / 2 < y - of_int \<lfloor>y\<rfloor> then \<lfloor>y\<rfloor> + 1
      else if even \<lfloor>y\<rfloor> then \<lfloor>y\<rfloor>
      else \<lfloor>y\<rfloor> + 1)"

text \<open>
  The number \<open>n * 2 ^ j\<close> as a decimal. For a negative \<open>j\<close> it is \<open>n' * 2 ^ - k\<close>
  with \<open>n'\<close> odd or \<open>k = 0\<close> (\<open>reduce_binary\<close>), which is \<open>n' * 5 ^ k * 10 ^ - k\<close>.
\<close>

fun reduce_binary :: "int \<Rightarrow> nat \<Rightarrow> int \<times> nat" where
  "reduce_binary n 0 = (n, 0)"
| "reduce_binary n (Suc k) = (if even n then reduce_binary (n div 2) k else (n, Suc k))"

definition dec_of_binary :: "int \<Rightarrow> int \<Rightarrow> jsnum" where
  "dec_of_binary n j =
     (if 0 \<le> j then (case norm_dec (n * 2 ^ nat j) 0 of (m, e) \<Rightarrow> Dec m e)
      else
        (case reduce_binary n (nat (- j)) of
           (n', k) \<Rightarrow> (case norm_dec (n' * 5 ^ k) (- int k) of (m, e) \<Rightarrow> Dec m e)))"

definition pack_double :: "bool \<Rightarrow> int \<Rightarrow> int \<Rightarrow> jsnum" where
  "pack_double neg ex n =
     (if 1023 < ex \<or> (ex = 1023 \<and> n = 2 ^ 53) then (if neg then NegInf else PosInf)
      else dec_of_binary (if neg then - n else n) (ex - 52))"

definition round_in_binade :: "rat \<Rightarrow> int \<Rightarrow> jsnum" where
  "round_in_binade x ex =
     pack_double (x < 0) ex (round_half_even (\<bar>x\<bar> / 2 powi (ex - 52)))"

definition round_double :: "rat \<Rightarrow> jsnum" where
  "round_double x = (if x = 0 then Dec 0 0 else round_in_binade x (binade \<bar>x\<bar>))"

definition DBL_OVERFLOW :: int where
  "DBL_OVERFLOW = 2 ^ 1024 - 2 ^ 970"

text \<open>
  The number nearest to \<open>m * 10 ^ e\<close>: a decimal literal, or a decimal text read by
  \<open>parseFloat\<close> or \<open>parseInt\<close>. \<open>num_lit n\<close> is the numeric literal \<open>n\<close>.
\<close>

definition mk_number :: "int \<Rightarrow> int \<Rightarrow> jsnum" where
  "mk_number m e = round_double (of_int m * 10 powi e)"

definition num_lit :: "nat \<Rightarrow> jsnum" where
  "num_lit n = mk_number (int n) 0"

fun sgn_of :: "jsnum \<Rightarrow> int" where
  "sgn_of NaN = 0"
| "sgn_of PosInf = 1"
| "sgn_of NegInf = - 1"
| "sgn_of (Dec m e) = sgn m"

text \<open>
  The \<open>*\<close> of two numbers: the exact product of two finite numbers, rounded to the
  nearest double.
\<close>

fun fmul :: "jsnum \<Rightarrow> jsnum \<Rightarrow> jsnum" where
  "fmul NaN y = NaN"
| "fmul x NaN = NaN"
| "fmul (Dec a ea) (Dec b eb) = mk_number (a * b) (ea + eb)"
| "fmul x y =
     (if sgn_of x * sgn_of y = 0 then NaN
      else if 0 < sgn_of x * sgn_of y then PosInf else NegInf)"

fun isFinite :: "jsnum \<Rightarrow> bool" where
  "isFinite (Dec m e) = True"
| "isFinite x = False"

text \<open>The exact value of a finite number, for stating properties.\<close>

fun num_value :: "jsnum \<Rightarrow> rat" where
  "num_value (Dec m e) = of_int m * 10 powi e"
| "num_value x = 0"

subsection \<open>Strings and numbers\<close>

definition is_digit :: "nat \<Rightarrow> bool" where
  "is_digit c = (48 \<le> c \<and> c \<le> 57)"

text \<open>WhiteSpace and LineTerminator of ECMA-262: what \<open>trim\<close> removes and \<open>\s\<close> matches.\<close>

definition is_space :: "nat \<Rightarrow> bool" where
  "is_space c =
     (c = 0x09 \<or> c = 0x0A \<or> c = 0x0B \<or> c = 0x0C \<or> c = 0x0D \<or> c = 0x20 \<or> c = 0xA0
      \<or> c = 0x1680 \<or> (0x2000 \<le> c \<and> c \<le> 0x200A) \<or> c = 0x2028 \<or> c = 0x2029
      \<or> c = 0x202F \<or> c = 0x205F \<or> c = 0x3000 \<or> c = 0xFEFF)"

definition trim :: "jsstring \<Rightarrow> jsstring" where
  "trim s = rev (dropWhile is_space (rev (dropWhile is_space s)))"

text \<open>
  \<open>toLowerCase\<close>: the ASCII letters, and the two code points outside ASCII whose lower
  case contains an ASCII letter (KELVIN SIGN U+212A gives \<open>k\<close>, U+0130 gives \<open>i\<close>
  followed by U+0307). Other code units are left as they are: the program only searches
  the lower-cased text for ASCII words.
\<close>

definition lower_unit :: "nat \<Rightarrow> jsstring" where
  "lower_unit c =
     (if 65 \<le> c \<and> c \<le> 90 then [c + 32]
      else if c = 0x212A then [107]
      else if c = 0x130 then [105, 0x307]
      else [c])"

definition toLowerCase :: "jsstring \<Rightarrow> jsstring" where
  "toLowerCase s = concat (map lower_unit s)"

text \<open>\<open>s.includes(p)\<close>.\<close>

fun str_includes :: "jsstring \<Rightarrow> jsstring \<Rightarrow> bool" where
  "str_includes [] p = (p = [])"
| "str_includes (c # cs) p = (take (length p) (c # cs) = p \<or> str_includes cs p)"

text \<open>
  \<open>/(a|b|c)/.test(s)\<close> for a regular expression that is an unanchored alternation of
  literal words: some alternative occurs in \<open>s\<close>.
\<close>

definition regex_test_words :: "jsstring list \<Rightarrow> jsstring \<Rightarrow> bool" where
  "regex_test_words alts s = list_ex (str_includes s) alts"

function digits_of :: "nat \<Rightarrow> jsstring" where
  "digits_of n = (if n < 10 then [48 + n] else digits_of (n div 10) @ [48 + n mod 10])"
  by pat_completeness auto
termination
  by (relation "measure id") auto

declare digits_of.simps [simp del]

definition digits_val :: "jsstring \<Rightarrow> nat" where
  "digits_val ds = foldl (\<lambda>a c. 10 * a + (c - 48)) 0 ds"

text \<open>
  Number::toString (radix 10) of ECMA-262. For a positive number \<open>x\<close> it takes the
  decimal \<open>s * 10 ^ (n - k)\<close> with the fewest digits \<open>k\<close> (\<open>s\<close> has \<open>k\<close> digits) whose
  nearest double is \<open>x\<close>, the one closest to \<open>x\<close> when there are several, and writes it
  in plain notation for \<open>-6 < n \<le> 21\<close> and in exponent notation otherwise.

  \<open>shortest_from m e d\<close> looks for that decimal for the double \<open>m * 10 ^ e\<close>: it tries
  to drop the last \<open>d\<close> digits of \<open>m\<close>, rounding down and up, then \<open>d - 1\<close> digits, and so
  on; dropping no digit leaves the exact value. \<open>pos_toString m e\<close> writes the decimal
  \<open>m * 10 ^ e\<close>.
\<close>

fun shortest_from :: "int \<Rightarrow> int \<Rightarrow> nat \<Rightarrow> int \<times> int" where
  "shortest_from m e 0 = (m, e)"
| "shortest_from m e (Suc j) =
     (if mk_number (m div 10 ^ Suc j) (e + int (Suc j)) = Dec m e \<and>
         (mk_number (m div 10 ^ Suc j + 1) (e + int (Suc j)) \<noteq> Dec m e \<or>
          2 * (m mod 10 ^ Suc j) \<le> 10 ^ Suc j)
      then (m div 10 ^ Suc j, e + int (Suc j))
      else if mk_number (m div 10 ^ Suc j + 1) (e + int (Suc j)) = Dec m e
      then (m div 10 ^ Suc j + 1, e + int (Suc j))
      else shortest_from m e j)"

definition shortest_decimal :: "int \<Rightarrow> int \<Rightarrow> int \<times> int" where
  "shortest_decimal m e =
     (case shortest_from m e (length (digits_of (nat m)) - 1) of (s, e') \<Rightarrow> norm_dec s e')"

definition pos_toString :: "nat \<Rightarrow> int \<Rightarrow> jsstring" where
  "pos_toString m e =
     (let ds = digits_of m; k = int (length ds); n = k + e in
      if k \<le> n \<and> n \<le> 21 then ds @ replicate (nat (n - k)) 48
      else if 0 < n \<and> n \<le> 21 then take (nat n) ds @ [46] @ drop (nat n) ds
      else if - 6 < n \<and> n \<le> 0 then [48, 46] @ replicate (nat (- n)) 48 @ ds
      else (if k = 1 then ds else take 1 ds @ [46] @ drop 1 ds)
           @ [101] @ (if 0 \<le> n - 1 then [43] else [45]) @ digits_of (nat \<bar>n - 1\<bar>))"

definition shortest_toString :: "int \<Rightarrow> int \<Rightarrow> jsstring" where
  "shortest_toString m e = (case shortest_decimal m e of (s, e') \<Rightarrow> pos_toString (nat s) e')"

fun Number_toString :: "jsnum \<Rightarrow> jsstring" where
  "Number_toString NaN = ascii ''NaN''"
| "Number_toString PosInf = ascii ''Infinity''"
| "Number_toString NegInf = ascii ''-Infinity''"
| "Number_toString (Dec m e) =
     (case norm_dec m e of (m', e') \<Rightarrow>
        if m' = 0 then [48]
        else if m' < 0 then 45 # shortest_toString (- m') e'
        else shortest_toString m' e')"

text \<open>\<open>String(v)\<close> and template interpolation.\<close>

fun String_of :: "jsval \<Rightarrow> jsstring" where
  "String_of JUndefined = ascii ''undefined''"
| "String_of JNull = ascii ''null''"
| "String_of (JBool b) = (if b then ascii ''true'' else ascii ''false'')"
| "String_of (JNum x) = Number_toString x"
| "String_of (JStr s) = s"

text \<open>\<open>v.toString()\<close>: a TypeError (\<open>None\<close>) on \<open>null\<close> and \<open>undefined\<close>.\<close>

fun toString_method :: "jsval \<Rightarrow> jsstring option" where
  "toString_method JUndefined = None"
| "toString_method JNull = None"
| "toString_method v = Some (String_of v)"

text \<open>Truthiness, \<open>a || b\<close>.\<close>

fun truthy :: "jsval \<Rightarrow> bool" where
  "truthy JUndefined = False"
| "truthy JNull = False"
| "truthy (JBool b) = b"
| "truthy (JNum NaN) = False"
| "truthy (JNum (Dec m e)) = (m \<noteq> 0)"
| "truthy (JNum x) = True"
| "truthy (JStr s) = (s \<noteq> [])"

definition js_or :: "jsval \<Rightarrow> jsval \<Rightarrow> jsval" where
  "js_or a b = (if truthy a then a else b)"

text \<open>
  \<open>parseFloat\<close> on an unsigned decimal literal \<open>digits[.digits]\<close>, the only shape the
  program passes to it (the text matched by its number pattern): the double nearest to the
  decimal value of the longest such prefix, \<open>NaN\<close> when the text starts with neither a
  digit nor a fraction.
\<close>

definition parseFloat :: "jsstring \<Rightarrow> jsnum" where
  "parseFloat s =
     (let ip = takeWhile is_digit s;
          r = dropWhile is_digit s;
          fp = (case r of [] \<Rightarrow> [] | d # f \<Rightarrow> if d = 46 then takeWhile is_digit f else [])
      in if ip = [] \<and> fp = [] then NaN
         else mk_number (int (digits_val (ip @ fp))) (- int (length fp)))"

section \<open>The currency normalizer\<close>

text \<open>
  \<open>parseIndianNumber\<close> of the data transformation utilities.
  \<open>s.match(/([0-9]+(?:\.[0-9]+)?)/)\<close>: the leftmost match, greedy. The result is the
  index of the match and the matched text (\<open>m.index\<close> and \<open>m[0]\<close>, which is also
  \<open>m[1]\<close>); \<open>None\<close> is \<open>null\<close>.
\<close>

fun match_number :: "jsstring \<Rightarrow> (nat \<times> jsstring) option" where
  "match_number [] = None"
| "match_number (c # cs) =
     (if is_digit c then
        (let ip = takeWhile is_digit (c # cs); r = dropWhile is_digit (c # cs) in
         case r of
           d # f # r' \<Rightarrow>
             if d = 46 \<and> is_digit f then Some (0, ip @ [46] @ takeWhile is_digit (f # r'))
             else Some (0, ip)
         | _ \<Rightarrow> Some (0, ip))
      else map_option (\<lambda>(i, m). (Suc i, m)) (match_number cs))"

definition SENTINELS :: "jsstring list" where
  "SENTINELS = [ascii ''-'', ascii ''N/A'', ascii ''null'', ascii ''undefined'', ascii ''--'']"

definition strip_class :: "nat \<Rightarrow> bool" where
  "strip_class c = (c = 0xA0 \<or> c = 0x202F \<or> c = 0x2009 \<or> c = 0x200A \<or> c = 0x200B \<or> is_space c)"

definition strip_currency :: "jsstring \<Rightarrow> jsstring" where
  "strip_currency s =
     filter (\<lambda>c. c \<noteq> 44) (filter (\<lambda>c. \<not> strip_class c) (filter (\<lambda>c. c \<noteq> RUPEE) s))"

definition CRORE_WORDS :: "jsstring list" where
  "CRORE_WORDS = [ascii ''cr'', ascii ''crore'', ascii ''crores'']"

definition LAKH_WORDS :: "jsstring list" where
  "LAKH_WORDS = [ascii ''lac'', ascii ''lakh'', ascii ''lakhs'']"

definition apply_unit :: "jsstring \<Rightarrow> jsnum \<Rightarrow> jsnum" where
  "apply_unit suffix num =
     (if regex_test_words CRORE_WORDS suffix then fmul num (num_lit 10000000)
      else if regex_test_words LAKH_WORDS suffix then fmul num (num_lit 100000)
      else num)"

definition parseIndianNumber :: "jsval \<Rightarrow> jsnum" where
  "parseIndianNumber str =
     (if str = JNull \<or> str = JUndefined then Dec 0 0
      else
        let s = trim (String_of str) in
        if s = [] \<or> s \<in> set SENTINELS then Dec 0 0
        else
          let s = strip_currency s in
          case match_number s of
            None \<Rightarrow> Dec 0 0
          | Some (index, m0) \<Rightarrow>
              let num = parseFloat m0;
                  suffix = toLowerCase (drop (index + length m0) s);
                  num = apply_unit suffix num
              in if isFinite num then num else Dec 0 0)"

section \<open>Errors and promises\<close>

text \<open>
  An error object as the program inspects it: \<open>error.name\<close>, \<open>error.code\<close>,
  \<open>error.response?.status\<close> and \<open>error.message\<close>. \<open>None\<close> is \<open>undefined\<close>. A promise
  settles as \<open>Resolved\<close> with a value or \<open>Rejected\<close> with the thrown error.
\<close>

record js_error =
  err_name :: jsstring
  err_code :: "jsstring option"
  err_status :: "nat option"
  err_message :: jsstring

datatype 'a promise_result = Resolved 'a | Rejected js_error

definition new_Error :: "jsstring \<Rightarrow> js_error" where
  "new_Error msg = \<lparr>err_name = ascii ''Error'', err_code = None, err_status = None, err_message = msg\<rparr>"

definition new_TypeError :: "jsstring \<Rightarrow> js_error" where
  "new_TypeError msg =
     \<lparr>err_name = ascii ''TypeError'', err_code = None, err_status = None, err_message = msg\<rparr>"

section \<open>The report request\<close>

text \<open>
  \<open>fetchData(house, dataType, lsTerm = '18')\<close> of the API client, up to the request body
  it writes: the combo of the house and term, the key of the report kind, and the
  rejection for a data type that is not a key of \<open>dataTypeMap\<close> (the properties that the
  object literal inherits are not modelled). \<open>dataTypes\<close> is the list of report kinds that
  \<open>fetchAllDataForHouse\<close> asks for.
\<close>

definition dataTypeMap :: "(jsstring \<times> jsstring) list" where
  "dataTypeMap =
     [(ascii ''works_completed'', ascii ''Total%20Works%20Completed''),
      (ascii ''works_recommended'', ascii ''Total%20Works%20Recommended''),
      (ascii ''expenditure'', ascii ''Total%20Expenditure''),
      (ascii ''allocated_limit'', ascii ''Allocated%20Limit'')]"

definition houseCombo :: "jsstring \<Rightarrow> jsval \<Rightarrow> jsstring" where
  "houseCombo house lsTerm =
     (if house = ascii ''lok_sabha'' then
        (if toLowerCase (String_of lsTerm) = ascii ''17'' then ascii ''0%2C0%2C0%2C2%2C5''
         else ascii ''0%2C0%2C0%2C2'')
      else ascii ''0%2C0%2C0%2C1'')"

definition fetchData_postData :: "jsstring \<Rightarrow> jsstring \<Rightarrow> jsval \<Rightarrow> jsstring promise_result" where
  "fetchData_postData house dataType lsTermArg =
     (let lsTerm = (if lsTermArg = JUndefined then JStr (ascii ''18'') else lsTermArg);
          combo = houseCombo house lsTerm
      in case map_of dataTypeMap dataType of
           None \<Rightarrow> Rejected (new_Error (ascii ''Invalid data type: '' @ dataType))
         | Some keyParam \<Rightarrow> Resolved (ascii ''combo='' @ combo @ ascii ''&key='' @ keyParam))"

text \<open>
  Reading the request as the portal does: the value of a form field of the body, and
  percent-decoding (\<open>%2C\<close> is the comma).
\<close>

definition hex_val :: "nat \<Rightarrow> nat option" where
  "hex_val c =
     (if 48 \<le> c \<and> c \<le> 57 then Some (c - 48)
      else if 65 \<le> c \<and> c \<le> 70 then Some (c - 55)
      else if 97 \<le> c \<and> c \<le> 102 then Some (c - 87)
      else None)"

fun percent_decode :: "jsstring \<Rightarrow> jsstring" where
  "percent_decode (p # h # l # cs) =
     (case (p = 37, hex_val h, hex_val l) of
        (True, Some a, Some b) \<Rightarrow> (16 * a + b) # percent_decode cs
      | _ \<Rightarrow> p # percent_decode (h # l # cs))"
| "percent_decode cs = cs"

fun split_on :: "nat \<Rightarrow> jsstring \<Rightarrow> jsstring list" where
  "split_on sep [] = [[]]"
| "split_on sep (c # cs) =
     (case split_on sep cs of
        [] \<Rightarrow> [[c]]
      | w # ws \<Rightarrow> if c = sep then [] # w # ws else (c # w) # ws)"

definition form_field :: "jsstring \<Rightarrow> jsstring \<Rightarrow> jsstring option" where
  "form_field name body =
     map_option (\<lambda>kv. percent_decode (drop (length name + 1) kv))
       (find (\<lambda>kv. take (length name + 1) kv = name @ [61]) (split_on 38 body))"

definition sent_combo :: "jsstring \<Rightarrow> jsstring \<Rightarrow> jsval \<Rightarrow> jsstring option" where
  "sent_combo house dataType lsTermArg =
     (case fetchData_postData house dataType lsTermArg of
        Resolved body \<Rightarrow> form_field (ascii ''combo'') body
      | Rejected e \<Rightarrow> None)"

definition dataTypes :: "jsstring list" where
  "dataTypes =
     [ascii ''works_completed'', ascii ''works_recommended'', ascii ''expenditure'',
      ascii ''allocated_limit'']"

section \<open>The next scheduled update\<close>


type_synonym time_zone = "(int \<times> int) list"





definition resolve_local :: "time_zone \<Rightarrow> int \<Rightarrow> int" where
  "resolve_local tz t =
     (case find (\<lambda>(start, len). start \<le> t \<and> t < start + len) tz of
        None \<Rightarrow> t
      | Some (start, len) \<Rightarrow> t + len)"






section \<open>Attachment ids\<close>

text \<open>
  \<open>getAttachmentIds\<close> of \<open>upload-scripts/mplads-image-extractor/src/mplads-api.js\<close>.
  The body of the attachment-id response: an array whose first element carries
  \<open>FILE_NAME\<close> and \<open>ATTACH_ID\<close>, each a scalar or an array; a missing field is the
  scalar \<open>undefined\<close>. \<open>ElemNull\<close> is an element with no properties to read (\<open>null\<close>).
\<close>

datatype json_field = Scalar jsval | Arr "jsval list"

datatype attach_elem = ElemNull | ElemObj json_field json_field

datatype attach_data = DataArray "attach_elem list" | DataOther

record attachment =
  fileName :: json_field
  attachmentId :: json_field

definition zip_attachments :: "jsval list \<Rightarrow> jsval list \<Rightarrow> attachment list" where
  "zip_attachments names ids =
     map (\<lambda>(fileName, index).
            \<lparr>fileName = Scalar fileName,
             attachmentId = Scalar (if index < length ids then ids ! index else JUndefined)\<rparr>)
         (zip names [0 ..< length names])"

definition read_attachments :: "attach_data \<Rightarrow> js_error + attachment list" where
  "read_attachments data =
     (case data of
        DataOther \<Rightarrow> Inr []
      | DataArray [] \<Rightarrow> Inr []
      | DataArray (ElemNull # rest) \<Rightarrow>
          Inl (new_TypeError (ascii ''Cannot read properties of null (reading FILE_NAME)''))
      | DataArray (ElemObj file_name attach_id # rest) \<Rightarrow>
          if file_name \<noteq> Scalar (JStr (ascii ''N/A'')) then
            (case (file_name, attach_id) of
               (Arr names, Arr ids) \<Rightarrow> Inr (zip_attachments names ids)
             | _ \<Rightarrow> Inr [\<lparr>fileName = file_name, attachmentId = attach_id\<rparr>])
          else Inr [])"

text \<open>
  \<open>getAttachmentIds(workId, flag)\<close>. \<open>post\<close> is the portal: the settlement of the POST
  for the request fields \<open>FLAG\<close> and \<open>WORK_ID\<close>. Everything runs inside the \<open>try\<close>,
  whose \<open>catch\<close> turns a 404 into the empty list and rethrows any other error.
\<close>

definition getAttachmentIds ::
  "(jsstring \<Rightarrow> jsstring \<Rightarrow> attach_data promise_result) \<Rightarrow> jsval \<Rightarrow> jsval
     \<Rightarrow> js_error + attachment list" where
  "getAttachmentIds post workId flag =
     (let attempt =
        (case (toString_method flag, toString_method workId) of
           (Some f, Some w) \<Rightarrow>
             (case post f w of
                Resolved data \<Rightarrow> read_attachments data
              | Rejected error \<Rightarrow> Inl error)
         | _ \<Rightarrow> Inl (new_TypeError (ascii ''Cannot read properties (reading toString)'')))
      in case attempt of
           Inr r \<Rightarrow> Inr r
         | Inl error \<Rightarrow> if err_status error = Some 404 then Inr [] else Inl error)"

section \<open>Session bootstrap\<close>

text \<open>
  The API client object (class \<open>MPLADSApiClient\<close>): its cookies (\<open>None\<close> is \<open>null\<close>), its
  CSRF token, and the content of the session file it persists to (\<open>None\<close>: no file).
\<close>

record session_data =
  sd_cookies :: "jsstring option"
  sd_csrfToken :: jsstring
  sd_timestamp :: nat

record client =
  sessionCookies :: "jsstring option"
  csrfToken :: jsstring
  session_file :: "session_data option"

text \<open>
  What happens to the GET of the portal root: \<open>https.request\<close> throws, the request emits
  \<open>error\<close>, the 30000 ms timer set by \<open>req.setTimeout\<close> fires, or the response ends, with
  its \<open>set-cookie\<close> headers (\<open>None\<close>: no such header).
\<close>

datatype portal_event =
    SetupThrows js_error
  | RequestError js_error
  | RequestTimeout
  | ResponseEnd "jsstring list option"

definition join_with :: "jsstring \<Rightarrow> jsstring list \<Rightarrow> jsstring" where
  "join_with sep parts =
     (case parts of [] \<Rightarrow> [] | p # ps \<Rightarrow> p @ concat (map (\<lambda>q. sep @ q) ps))"

definition cookie_header :: "jsstring list \<Rightarrow> jsstring" where
  "cookie_header setCookieHeaders =
     join_with (ascii ''; '')
       (filter (\<lambda>cookie. str_includes cookie (ascii ''=''))
          (map (\<lambda>cookie. hd (split_on 59 cookie)) setCookieHeaders))"

text \<open>\<open>saveSession\<close>: a failed write is caught and logged, the file stays as it was.\<close>

definition saveSession :: "client \<Rightarrow> nat \<Rightarrow> bool \<Rightarrow> client" where
  "saveSession c now write_ok =
     (if write_ok then
        c\<lparr>session_file :=
            Some \<lparr>sd_cookies = sessionCookies c, sd_csrfToken = csrfToken c, sd_timestamp = now\<rparr>\<rparr>
      else c)"

text \<open>\<open>testSession\<close>, given how its \<open>fetchData\<close> call settles.\<close>

definition testSession :: "'a list promise_result \<Rightarrow> bool" where
  "testSession fetched = (case fetched of Resolved testData \<Rightarrow> testData \<noteq> [] | Rejected e \<Rightarrow> False)"

text \<open>
  \<open>initializeSession\<close>: how its promise settles, and the client afterwards. The
  executor never calls its second argument (it is named \<open>_\<close>).
\<close>

definition initializeSession ::
  "client \<Rightarrow> nat \<Rightarrow> bool \<Rightarrow> 'a list promise_result \<Rightarrow> portal_event
     \<Rightarrow> bool promise_result \<times> client" where
  "initializeSession c now write_ok fetched ev =
     (case ev of
        SetupThrows error \<Rightarrow> (Resolved False, c)
      | RequestError error \<Rightarrow> (Resolved False, c)
      | RequestTimeout \<Rightarrow> (Resolved False, c)
      | ResponseEnd None \<Rightarrow> (Resolved False, c)
      | ResponseEnd (Some setCookieHeaders) \<Rightarrow>
          if 0 < length setCookieHeaders then
            (let cookies = cookie_header setCookieHeaders in
             if cookies \<noteq> [] then
               (let c1 = c\<lparr>sessionCookies := Some cookies\<rparr>;
                    c2 = saveSession c1 now write_ok;
                    sessionWorks = testSession fetched
                in (Resolved sessionWorks, c2))
             else (Resolved False, c))
          else (Resolved False, c))"

section \<open>Downloading an attachment\<close>

text \<open>
  \<open>RETRY_CONFIG\<close>, \<open>isRetryableError\<close>, \<open>calculateDelay\<close> and \<open>downloadImageData\<close> of
  \<open>upload-scripts/mplads-image-extractor/src/mplads-api.js\<close>.
\<close>

definition maxRetries :: nat where
  "maxRetries = 3"

definition baseDelay :: rat where
  "baseDelay = 2000"

definition maxDelay :: rat where
  "maxDelay = 10000"

definition retryableErrors :: "jsstring list" where
  "retryableErrors =
     [ascii ''ECONNRESET'', ascii ''ETIMEDOUT'', ascii ''ENOTFOUND'', ascii ''ECONNREFUSED'',
      ascii ''EAI_AGAIN'']"

definition isRetryableError :: "js_error \<Rightarrow> bool" where
  "isRetryableError error =
     (if (case err_code error of Some c \<Rightarrow> c \<in> set retryableErrors | None \<Rightarrow> False) then True
      else if (case err_status error of Some s \<Rightarrow> 500 \<le> s | None \<Rightarrow> False) then True
      else if err_status error = Some 429 then True
      else if str_includes (err_message error) (ascii ''timeout'') then True
      else if str_includes (err_message error) (ascii ''ECONNRESET'') then True
      else False)"

text \<open>
  \<open>calculateDelay(attempt)\<close> in milliseconds; \<open>rnd\<close> is the value of \<open>Math.random()\<close>,
  a number from 0 up to but not including 1. Delays are exact rationals.
\<close>

definition calculateDelay :: "nat \<Rightarrow> rat \<Rightarrow> rat" where
  "calculateDelay attempt rnd =
     (let exponentialDelay = baseDelay * 2 powi (int attempt - 1);
          jitter = rnd * (1 / 10) * exponentialDelay
      in min (exponentialDelay + jitter) maxDelay)"

text \<open>
  The body of the download response: a string, an array whose elements have a \<open>URL\<close>
  property (\<open>undefined\<close> when missing; \<open>UrlNull\<close> is an element \<open>null\<close>), or anything
  else. The result keeps the base64 text and its length; the decoded buffer is not
  modelled.
\<close>

datatype url_elem = UrlNull | UrlObj jsval

datatype download_data = BodyString jsstring | BodyArray "url_elem list" | BodyOther

record image_data =
  base64Data :: jsstring
  originalSize :: nat

definition read_image :: "download_data \<Rightarrow> js_error + image_data" where
  "read_image data =
     (case data of
        BodyString s \<Rightarrow> Inr \<lparr>base64Data = s, originalSize = length s\<rparr>
      | BodyArray (UrlNull # rest) \<Rightarrow>
          Inl (new_TypeError (ascii ''Cannot read properties of null (reading URL)''))
      | BodyArray (UrlObj (JStr s) # rest) \<Rightarrow>
          if s \<noteq> [] then Inr \<lparr>base64Data = s, originalSize = length s\<rparr>
          else Inl (new_Error (ascii
            ''Invalid response format - expected base64 string or array with URL field''))
      | BodyArray (UrlObj u # rest) \<Rightarrow>
          if truthy u then Inl (new_TypeError (ascii ''The first argument must be of type string''))
          else Inl (new_Error (ascii
            ''Invalid response format - expected base64 string or array with URL field''))
      | _ \<Rightarrow> Inl (new_Error (ascii
            ''Invalid response format - expected base64 string or array with URL field'')))"

text \<open>What is thrown: an error, or \<open>undefined\<close> (the value of \<open>lastError\<close> before any catch).\<close>

datatype thrown = Thrown js_error | ThrownUndefined

record download_run =
  outcome :: "thrown + image_data"
  attempts_made :: nat
  sleeps :: "rat list"

text \<open>
  One pass through the \<open>try\<close> block: the POST of the attachment id and the reading of its
  response. \<open>post n body\<close> is how the \<open>n\<close>-th POST settles.
\<close>

definition attempt_once ::
  "(nat \<Rightarrow> jsstring \<Rightarrow> download_data promise_result) \<Rightarrow> jsval \<Rightarrow> nat
     \<Rightarrow> js_error + image_data" where
  "attempt_once post attachId attempt =
     (case toString_method attachId of
        None \<Rightarrow> Inl (new_TypeError (ascii ''Cannot read properties (reading toString)''))
      | Some body \<Rightarrow>
          (case post attempt body of
             Resolved data \<Rightarrow> read_image data
           | Rejected error \<Rightarrow> Inl error))"

text \<open>
  The retry loop of \<open>downloadImageData\<close>, from attempt number \<open>attempt\<close> on. \<open>rnd n\<close> is
  the random number drawn after the \<open>n\<close>-th failure. The run records what is returned or
  thrown, the number of the last attempt and the delays slept.
\<close>

function download_from ::
  "(nat \<Rightarrow> jsstring \<Rightarrow> download_data promise_result) \<Rightarrow> (nat \<Rightarrow> rat) \<Rightarrow> jsval
     \<Rightarrow> nat \<Rightarrow> js_error option \<Rightarrow> rat list \<Rightarrow> download_run" where
  "download_from post rnd attachId attempt lastError slept =
     (if attempt \<le> maxRetries then
        (case attempt_once post attachId attempt of
           Inr img \<Rightarrow> \<lparr>outcome = Inr img, attempts_made = attempt, sleeps = slept\<rparr>
         | Inl error \<Rightarrow>
             if \<not> isRetryableError error then
               \<lparr>outcome = Inl (Thrown error), attempts_made = attempt, sleeps = slept\<rparr>
             else if attempt = maxRetries then
               \<lparr>outcome = Inl (Thrown error), attempts_made = attempt, sleeps = slept\<rparr>
             else
               download_from post rnd attachId (attempt + 1) (Some error)
                 (slept @ [calculateDelay attempt (rnd attempt)]))
      else
        \<lparr>outcome = Inl (case lastError of None \<Rightarrow> ThrownUndefined | Some e \<Rightarrow> Thrown e),
         attempts_made = attempt - 1, sleeps = slept\<rparr>)"
  by pat_completeness auto
termination
  by (relation "measure (\<lambda>(post, rnd, attachId, attempt, lastError, slept).
        Suc maxRetries - attempt)") auto

declare download_from.simps [simp del]

definition downloadImageData ::
  "(nat \<Rightarrow> jsstring \<Rightarrow> download_data promise_result) \<Rightarrow> (nat \<Rightarrow> rat) \<Rightarrow> jsval
     \<Rightarrow> download_run" where
  "downloadImageData post rnd attachId = download_from post rnd attachId 1 None []"

section \<open>Object storage\<close>

text \<open>
  \<open>uploadImageToR2\<close> and \<open>imageExistsInR2\<close> of the R2 client (in the same file). The
  bucket of \<open>config.r2.bucketName\<close> is a map from keys to stored objects.
  \<open>send_failure\<close> is the error with which \<open>r2Client.send\<close> rejects for reasons of its
  own (network, credentials), \<open>None\<close> when it does not.
\<close>

record r2_object =
  obj_body :: "nat list"
  obj_contentType :: jsstring
  obj_metadata :: "(string \<times> jsstring) list"

type_synonym r2_bucket = "jsstring \<Rightarrow> r2_object option"

record upload_result =
  r2Key :: jsstring
  r2Url :: jsstring
  size_bytes :: nat

definition split_pop :: "nat \<Rightarrow> jsstring \<Rightarrow> jsstring" where
  "split_pop sep s = last (split_on sep s)"

definition uploadImageToR2 ::
  "jsstring \<Rightarrow> r2_bucket \<Rightarrow> js_error option \<Rightarrow> jsval \<Rightarrow> jsstring \<Rightarrow> jsval \<Rightarrow> nat list
     \<Rightarrow> jsstring \<Rightarrow> (js_error + upload_result) \<times> r2_bucket" where
  "uploadImageToR2 publicDomain bucket send_failure workId phase attachId imageBuffer name =
     (let popped = split_pop 46 name;
          fileExtension = (if popped \<noteq> [] then popped else ascii ''jpg'');
          key = ascii ''works/'' @ String_of workId @ ascii ''/'' @ phase @ ascii ''/''
                  @ String_of attachId @ ascii ''_original.'' @ fileExtension
      in case (toString_method workId, toString_method attachId) of
           (Some w, Some a) \<Rightarrow>
             (case send_failure of
                Some error \<Rightarrow> (Inl error, bucket)
              | None \<Rightarrow>
                  (Inr \<lparr>r2Key = key,
                        r2Url = ascii ''https://'' @ publicDomain @ ascii ''/'' @ key,
                        size_bytes = length imageBuffer\<rparr>,
                   bucket(key \<mapsto>
                     \<lparr>obj_body = imageBuffer,
                      obj_contentType = ascii ''image/'' @ fileExtension,
                      obj_metadata = [(''workId'', w), (''phase'', phase),
                                      (''attachmentId'', a), (''originalFileName'', name)]\<rparr>)))
         | _ \<Rightarrow> (Inl (new_TypeError (ascii ''Cannot read properties (reading toString)'')), bucket))"

definition head_object :: "r2_bucket \<Rightarrow> js_error option \<Rightarrow> jsstring \<Rightarrow> unit promise_result" where
  "head_object bucket send_failure key =
     (case send_failure of
        Some error \<Rightarrow> Rejected error
      | None \<Rightarrow>
          if bucket key = None then
            Rejected \<lparr>err_name = ascii ''NotFound'', err_code = None, err_status = Some 404,
                      err_message = ascii ''UnknownError''\<rparr>
          else Resolved ())"

definition imageExistsInR2 ::
  "r2_bucket \<Rightarrow> js_error option \<Rightarrow> jsval \<Rightarrow> jsstring \<Rightarrow> jsval \<Rightarrow> js_error + bool" where
  "imageExistsInR2 bucket send_failure workId phase attachId =
     (let key = ascii ''works/'' @ String_of workId @ ascii ''/'' @ phase @ ascii ''/''
                  @ String_of attachId @ ascii ''_original.jpg''
      in case head_object bucket send_failure key of
           Resolved u \<Rightarrow> Inr True
         | Rejected error \<Rightarrow> if err_name error = ascii ''NotFound'' then Inr False else Inl error)"

section \<open>Record transformation\<close>

text \<open>
  The data transformation utilities. A raw report row is a JSON object with scalar values:
  an association list from its (distinct) field names to values, a missing field reading
  as \<open>undefined\<close>.
\<close>

type_synonym raw_record = "(string \<times> jsval) list"

definition field :: "raw_record \<Rightarrow> string \<Rightarrow> jsval" where
  "field r name = (case map_of r name of None \<Rightarrow> JUndefined | Some v \<Rightarrow> v)"

text \<open>
  \<open>parseInt(v)\<close> with no radix: the text of \<open>v\<close> with leading white space removed, an
  optional sign, an optional \<open>0x\<close> prefix selecting radix 16, then the longest run of
  digits of the radix; \<open>NaN\<close> when that run is empty.
\<close>

definition digit_of_radix :: "nat \<Rightarrow> nat \<Rightarrow> nat option" where
  "digit_of_radix radix c =
     (case hex_val c of None \<Rightarrow> None | Some d \<Rightarrow> if d < radix then Some d else None)"

definition radix_val :: "nat \<Rightarrow> jsstring \<Rightarrow> nat" where
  "radix_val radix ds = foldl (\<lambda>a c. radix * a + (case hex_val c of None \<Rightarrow> 0 | Some d \<Rightarrow> d)) 0 ds"

definition parseInt :: "jsval \<Rightarrow> jsnum" where
  "parseInt v =
     (let s = dropWhile is_space (String_of v);
          negative = (take 1 s = [45]);
          s = (if take 1 s = [45] \<or> take 1 s = [43] then drop 1 s else s);
          hex = (take 2 s = ascii ''0x'' \<or> take 2 s = ascii ''0X'');
          radix = (if hex then 16 else 10);
          s = (if hex then drop 2 s else s);
          ds = takeWhile (\<lambda>c. digit_of_radix radix c \<noteq> None) s
      in if ds = [] then NaN
         else mk_number (if negative then - int (radix_val radix ds) else int (radix_val radix ds)) 0)"

text \<open>\<open>!x\<close> and \<open>x <= 0\<close> on numbers.\<close>

definition num_truthy :: "jsnum \<Rightarrow> bool" where
  "num_truthy x = truthy (JNum x)"

fun num_le_zero :: "jsnum \<Rightarrow> bool" where
  "num_le_zero (Dec m e) = (m \<le> 0)"
| "num_le_zero NegInf = True"
| "num_le_zero x = False"

text \<open>
  The row filter shared by all four transformations: state and MP name present, longer
  than one code unit, and neither containing "total".
\<close>

definition names_ok :: "raw_record \<Rightarrow> bool" where
  "names_ok r =
     (let stateName = trim (String_of (js_or (field r ''STATE_NAME'') (JStr [])));
          mpName = trim (String_of (js_or (field r ''MP_NAME'') (JStr [])))
      in if stateName = [] \<or> mpName = [] \<or> length stateName \<le> 1 \<or> length mpName \<le> 1 then False
         else if str_includes (toLowerCase stateName) (ascii ''total'') \<or>
                 str_includes (toLowerCase mpName) (ascii ''total'') then False
         else True)"

text \<open>
  The transformed records, with the fields that bear on filtering, ids and amounts. The
  description, the constituency, the dates and the rating of the source's records are left
  out: they are computed from the row alone and no filter reads them.
\<close>

record completed_work =
  srNo :: jsval
  workCategory :: jsval
  workId :: jsnum
  state :: jsval
  ida :: jsval
  mpName :: jsval
  hasImage :: bool
  finalAmount :: jsnum
  house :: jsstring
  lsTerm :: jsval

record recommended_work =
  rec_srNo :: jsval
  rec_workCategory :: jsval
  rec_workId :: jsnum
  rec_state :: jsval
  rec_ida :: jsval
  rec_mpName :: jsval
  rec_hasImage :: bool
  recommendedAmount :: jsnum
  rec_house :: jsstring
  rec_lsTerm :: jsval

definition completed_keep :: "raw_record \<Rightarrow> bool" where
  "completed_keep r =
     (if \<not> names_ok r then False
      else if \<not> truthy (field r ''ACTUAL_END_DATE'') \<or> \<not> truthy (field r ''ACTUAL_AMOUNT'') then False
      else
        let recId = parseInt (field r ''WORK_RECOMMENDATION_DTL_ID'') in
        if \<not> num_truthy recId \<or> num_le_zero recId then False
        else True)"

definition or_zero :: "jsnum \<Rightarrow> jsnum" where
  "or_zero x = (if num_truthy x then x else Dec 0 0)"

definition file_status :: "raw_record \<Rightarrow> bool" where
  "file_status r =
     (field r ''FILE_STATUS'' = JBool True \<or> field r ''FILE_STATUS'' = JStr (ascii ''true''))"

definition term_of_house :: "jsstring \<Rightarrow> jsval \<Rightarrow> jsval" where
  "term_of_house h t = (if h = ascii ''Lok Sabha'' then t else JNull)"

definition transformWorksCompleted :: "raw_record list \<Rightarrow> jsstring \<Rightarrow> jsval \<Rightarrow> completed_work list" where
  "transformWorksCompleted apiData h t =
     map (\<lambda>(r, index).
            \<lparr>srNo = js_or (field r ''Sno'') (JNum (num_lit (index + 1))),
             workCategory = field r ''WORK_CATEGORY'',
             workId = or_zero (parseInt (field r ''WORK_RECOMMENDATION_DTL_ID'')),
             state = field r ''STATE_NAME'',
             ida = field r ''IDA_NAME'',
             mpName = field r ''MP_NAME'',
             hasImage = file_status r,
             finalAmount = parseIndianNumber (field r ''ACTUAL_AMOUNT''),
             house = h,
             lsTerm = term_of_house h t\<rparr>)
         (let kept = filter completed_keep apiData in zip kept [0 ..< length kept])"

text \<open>
  The filter of the recommended rows, given the set of completed work ids. \<open>None\<close> is the
  \<open>null\<close> of \<open>parseInt(...) || null\<close>.
\<close>

definition recommended_keep :: "jsnum set \<Rightarrow> raw_record \<Rightarrow> bool" where
  "recommended_keep completedWorkIds r =
     (if \<not> names_ok r then False
      else
        let parsed = parseInt (field r ''WORK_RECOMMENDATION_DTL_ID'');
            recId = (if num_truthy parsed then Some parsed else None)
        in case recId of
             None \<Rightarrow> False
           | Some n \<Rightarrow>
               if n \<in> completedWorkIds then False
               else if num_le_zero n then False
               else if \<not> truthy (field r ''RECOMMENDATION_DATE'') \<or>
                       \<not> truthy (field r ''RECOMMENDED_AMOUNT'') then False
               else True)"

definition transformWorksRecommended ::
  "raw_record list \<Rightarrow> jsstring \<Rightarrow> jsval \<Rightarrow> jsnum set \<Rightarrow> recommended_work list" where
  "transformWorksRecommended apiData h t completedWorkIds =
     map (\<lambda>(r, index).
            \<lparr>rec_srNo = js_or (field r ''Sno'') (JNum (num_lit (index + 1))),
             rec_workCategory = field r ''WORK_CATEGORY'',
             rec_workId = or_zero (parseInt (field r ''WORK_RECOMMENDATION_DTL_ID'')),
             rec_state = field r ''STATE_NAME'',
             rec_ida = field r ''IDA_NAME'',
             rec_mpName = field r ''MP_NAME'',
             rec_hasImage = file_status r,
             recommendedAmount = parseIndianNumber (field r ''RECOMMENDED_AMOUNT''),
             rec_house = h,
             rec_lsTerm = term_of_house h t\<rparr>)
         (let kept = filter (recommended_keep completedWorkIds) apiData
          in zip kept [0 ..< length kept])"

text \<open>
  \<open>transformAllData\<close> on the completed and recommended works of the two houses (the
  allocations and expenditures are transformed independently of them). \<open>optionsTerm\<close> is
  \<open>options.lsTerm\<close>, which defaults to \<open>null\<close>. The set of completed ids is
  \<open>new Set(completed.map(w => w.workId).filter(Boolean))\<close>.
\<close>

record house_rows =
  rows_completed :: "raw_record list"
  rows_recommended :: "raw_record list"

record api_data =
  api_lok_sabha :: house_rows
  api_rajya_sabha :: house_rows

record house_works =
  works_completed :: "completed_work list"
  works_recommended :: "recommended_work list"

record all_works =
  lok_sabha :: house_works
  rajya_sabha :: house_works

definition completed_id_set :: "completed_work list \<Rightarrow> jsnum set" where
  "completed_id_set ws = set (filter num_truthy (map workId ws))"

definition transformAllData :: "api_data \<Rightarrow> jsval \<Rightarrow> all_works" where
  "transformAllData apiData optionsTerm =
     (let optTerm = (if optionsTerm = JUndefined then JNull else optionsTerm);
          ls_completed =
            transformWorksCompleted (rows_completed (api_lok_sabha apiData)) (ascii ''Lok Sabha'') optTerm;
          lsCompletedWorkIds = completed_id_set ls_completed;
          ls_recommended =
            transformWorksRecommended (rows_recommended (api_lok_sabha apiData)) (ascii ''Lok Sabha'')
              optTerm lsCompletedWorkIds;
          rs_completed =
            transformWorksCompleted (rows_completed (api_rajya_sabha apiData)) (ascii ''Rajya Sabha'') JNull;
          rsCompletedWorkIds = completed_id_set rs_completed;
          rs_recommended =
            transformWorksRecommended (rows_recommended (api_rajya_sabha apiData))
              (ascii ''Rajya Sabha'') JNull rsCompletedWorkIds
      in \<lparr>lok_sabha = \<lparr>works_completed = ls_completed, works_recommended = ls_recommended\<rparr>,
          rajya_sabha = \<lparr>works_completed = rs_completed, works_recommended = rs_recommended\<rparr>\<rparr>)"

section \<open>Vocabulary of the properties\<close>

text \<open>
  Notions used to state and prove the properties of the currency normalizer: the canonical
  form of a finite number; texts made of digits only, or holding none; what the three
  \<open>replace\<close> calls remove; the normalizer on a text that is already stripped.
\<close>

definition canonical :: "int \<Rightarrow> int \<Rightarrow> bool" where
  "canonical m e = ((m = 0 \<and> e = 0) \<or> m mod 10 \<noteq> 0)"

definition all_digits :: "jsstring \<Rightarrow> bool" where
  "all_digits ds = list_all is_digit ds"

definition no_digit :: "jsstring \<Rightarrow> bool" where
  "no_digit s = list_all (\<lambda>c. \<not> is_digit c) s"

text \<open>The text after a run of digits does not continue it.\<close>

definition run_stops :: "jsstring \<Rightarrow> bool" where
  "run_stops rest = (case rest of [] \<Rightarrow> True | c # cs \<Rightarrow> \<not> is_digit c)"

definition no_fraction :: "jsstring \<Rightarrow> bool" where
  "no_fraction rest = (case rest of d # f # cs \<Rightarrow> \<not> (d = 46 \<and> is_digit f) | _ \<Rightarrow> True)"

definition strippable :: "nat \<Rightarrow> bool" where
  "strippable c = (c = RUPEE \<or> strip_class c \<or> c = 44)"

definition finite_or_zero :: "jsnum \<Rightarrow> jsnum" where
  "finite_or_zero x = (if isFinite x then x else Dec 0 0)"

definition parse_stripped :: "jsstring \<Rightarrow> jsnum" where
  "parse_stripped t =
     (case match_number t of
        None \<Rightarrow> Dec 0 0
      | Some (index, m0) \<Rightarrow>
          finite_or_zero (apply_unit (toLowerCase (drop (index + length m0) t)) (parseFloat m0)))"

fun nonneg_num :: "jsnum \<Rightarrow> bool" where
  "nonneg_num (Dec m e) = (0 \<le> m)"
| "nonneg_num NegInf = False"
| "nonneg_num x = True"

fun canonical_num :: "jsnum \<Rightarrow> bool" where
  "canonical_num (Dec m e) = canonical m e"
| "canonical_num x = True"

text \<open>
  The decimal value of a run of digits \<open>ip\<close> with the fraction digits \<open>fp\<close>. A text
  \<open>t\<close> whose first run of digits is \<open>ip\<close>, with the fraction \<open>fp\<close> when it is not
  empty: before it a part \<open>pre\<close> without digits, after it a \<open>rest\<close> that does not
  continue the run. A rational that is a double: rounding leaves it as it is. A number that
  is \<open>NaN\<close>, infinite or a double.
\<close>

definition run_value :: "jsstring \<Rightarrow> jsstring \<Rightarrow> rat" where
  "run_value ip fp = of_nat (digits_val (ip @ fp)) / 10 ^ length fp"

definition first_run :: "jsstring \<Rightarrow> jsstring \<Rightarrow> jsstring \<Rightarrow> jsstring \<Rightarrow> jsstring \<Rightarrow> bool" where
  "first_run t pre ip fp rest =
     (t = pre @ ip @ (if fp = [] then [] else 46 # fp) @ rest \<and>
      no_digit pre \<and> all_digits ip \<and> ip \<noteq> [] \<and> all_digits fp \<and> run_stops rest \<and>
      (fp = [] \<longrightarrow> no_fraction rest))"

definition exact_double :: "rat \<Rightarrow> bool" where
  "exact_double x = (isFinite (round_double x) \<and> num_value (round_double x) = x)"

fun double_num :: "jsnum \<Rightarrow> bool" where
  "double_num (Dec m e) = (mk_number m e = Dec m e)"
| "double_num x = True"



section \<open>Properties\<close>

subsection \<open>Evaluating numbers\<close>

lemma bin_down_numeral:
  "bin_down (numeral k) x = (if 1 \<le> x then 0 else bin_down (pred_numeral k) (2 * x) - 1)"
  by (simp add: numeral_eq_Suc)

lemma reduce_binary_numeral:
  "reduce_binary n (numeral k) =
     (if even n then reduce_binary (n div 2) (pred_numeral k) else (n, numeral k))"
  by (simp add: numeral_eq_Suc)

lemma floor_numeral_div:
  "\<lfloor>numeral a / numeral b :: rat\<rfloor> = numeral a div numeral b"
  using floor_divide_of_int_eq [of "numeral a" "numeral b", where ?'a = rat] by simp

lemma replicate_numeral: "replicate (numeral k) x = x # replicate (pred_numeral k) x"
  by (simp add: numeral_eq_Suc)

lemmas num_eval = mk_number_def round_double_def round_in_binade_def pack_double_def binade_def
  bin_up.simps bin_down_numeral round_half_even_def floor_numeral_div dec_of_binary_def
  reduce_binary_numeral norm_dec.simps

lemma toString_examples:
  "Number_toString (Dec 3 0) = ascii ''3''"
  "Number_toString (Dec 7 0) = ascii ''7''"
  "Number_toString (Dec 102 0) = ascii ''102''"
  "Number_toString (Dec 149239 0) = ascii ''149239''"
proof -
  have sd: "shortest_decimal 3 0 = (3, 0)" "shortest_decimal 7 0 = (7, 0)"
    "shortest_decimal 102 0 = (102, 0)" "shortest_decimal 149239 0 = (149239, 0)"
    by (simp_all add: shortest_decimal_def digits_of.simps num_eval)
  show "Number_toString (Dec 3 0) = ascii ''3''"
    "Number_toString (Dec 7 0) = ascii ''7''"
    "Number_toString (Dec 102 0) = ascii ''102''"
    "Number_toString (Dec 149239 0) = ascii ''149239''"
    by (simp_all add: norm_dec.simps shortest_toString_def sd pos_toString_def digits_of.simps
        ascii_def)
qed

subsection \<open>Combo codes\<close>

lemmas request_defs =
  dataTypes_def sent_combo_def fetchData_postData_def houseCombo_def dataTypeMap_def
  form_field_def ascii_def toLowerCase_def lower_unit_def hex_val_def

lemma sent_combo_ls18:
  "k \<in> set dataTypes \<Longrightarrow>
     sent_combo (ascii ''lok_sabha'') k (JStr (ascii ''18'')) = Some (ascii ''0,0,0,2'')"
  by (auto simp: request_defs)

lemma sent_combo_ls17:
  "k \<in> set dataTypes \<Longrightarrow>
     sent_combo (ascii ''lok_sabha'') k (JStr (ascii ''17'')) = Some (ascii ''0,0,0,2,5'')"
  by (auto simp: request_defs)

lemma sent_combo_rs:
  "k \<in> set dataTypes \<Longrightarrow> sent_combo (ascii ''rajya_sabha'') k t = Some (ascii ''0,0,0,1'')"
  by (auto simp: request_defs Let_def)

text \<open>
  C6. For every report kind, the combo code of the request is \<open>0,0,0,2\<close> for Lok Sabha
  with term 18, \<open>0,0,0,2,5\<close> (the same code with one more component) for Lok Sabha with
  term 17, and \<open>0,0,0,1\<close> for Rajya Sabha whatever the term argument is.
\<close>

theorem combo_codes:
  "k \<in> set dataTypes \<Longrightarrow>
     sent_combo (ascii ''lok_sabha'') k (JStr (ascii ''18'')) = Some (ascii ''0,0,0,2'') \<and>
     sent_combo (ascii ''lok_sabha'') k (JStr (ascii ''17'')) = Some (ascii ''0,0,0,2'' @ ascii '',5'') \<and>
     (\<forall>lsTerm. sent_combo (ascii ''rajya_sabha'') k lsTerm = Some (ascii ''0,0,0,1''))"
  using sent_combo_ls18 [of k] sent_combo_ls17 [of k] sent_combo_rs [of k]
  by (simp add: ascii_def)

theorem combo_codes_witness:
  "ascii ''expenditure'' \<in> set dataTypes \<and>
   sent_combo (ascii ''lok_sabha'') (ascii ''expenditure'') (JStr (ascii ''18'')) = Some (ascii ''0,0,0,2'') \<and>
   sent_combo (ascii ''lok_sabha'') (ascii ''expenditure'') (JStr (ascii ''17'')) = Some (ascii ''0,0,0,2,5'') \<and>
   sent_combo (ascii ''rajya_sabha'') (ascii ''expenditure'') (JStr (ascii ''17'')) = Some (ascii ''0,0,0,1'')"
proof -
  have k: "ascii ''expenditure'' \<in> set dataTypes"
    by (simp add: dataTypes_def)
  from combo_codes [OF k] k show ?thesis
    by (simp add: ascii_def)
qed

subsection \<open>The next update\<close>








lemma resolve_no_gaps: "resolve_local [] t = t"
  by (simp add: resolve_local_def)












subsection \<open>Attachment ids\<close>

text \<open>
  C9. For every work id and flag that the request can be built from, a rejection with
  HTTP status 404 makes \<open>getAttachmentIds\<close> return the empty list, and a rejection with
  any other status, or with none, is raised to the caller.
\<close>

theorem getAttachmentIds_not_found_is_empty:
  assumes "toString_method flag = Some f"
    and "toString_method work = Some w"
    and "post f w = Rejected error"
  shows "getAttachmentIds post work flag =
           (if err_status error = Some 404 then Inr [] else Inl error)"
  using assms by (simp add: getAttachmentIds_def)

theorem getAttachmentIds_not_found_is_empty_witness:
  "toString_method (JNum (Dec 3 0)) = Some (ascii ''3'') \<and>
   toString_method (JNum (Dec 149239 0)) = Some (ascii ''149239'') \<and>
   getAttachmentIds
     (\<lambda>f w. Rejected \<lparr>err_name = ascii ''AxiosError'', err_code = Some (ascii ''ERR_BAD_REQUEST''),
                       err_status = Some 404,
                       err_message = ascii ''Request failed with status code 404''\<rparr>)
     (JNum (Dec 149239 0)) (JNum (Dec 3 0)) = Inr [] \<and>
   getAttachmentIds
     (\<lambda>f w. Rejected \<lparr>err_name = ascii ''AxiosError'', err_code = Some (ascii ''ERR_BAD_REQUEST''),
                       err_status = Some 403,
                       err_message = ascii ''Request failed with status code 403''\<rparr>)
     (JNum (Dec 149239 0)) (JNum (Dec 3 0)) =
     Inl \<lparr>err_name = ascii ''AxiosError'', err_code = Some (ascii ''ERR_BAD_REQUEST''),
          err_status = Some 403, err_message = ascii ''Request failed with status code 403''\<rparr>"
proof -
  let ?e404 = "\<lparr>err_name = ascii ''AxiosError'', err_code = Some (ascii ''ERR_BAD_REQUEST''),
      err_status = Some 404, err_message = ascii ''Request failed with status code 404''\<rparr>"
  let ?e403 = "\<lparr>err_name = ascii ''AxiosError'', err_code = Some (ascii ''ERR_BAD_REQUEST''),
      err_status = Some 403, err_message = ascii ''Request failed with status code 403''\<rparr>"
  have f: "toString_method (JNum (Dec 3 0)) = Some (ascii ''3'')"
    by (simp add: toString_examples del: Number_toString.simps)
  have w: "toString_method (JNum (Dec 149239 0)) = Some (ascii ''149239'')"
    by (simp add: toString_examples del: Number_toString.simps)
  have a: "getAttachmentIds (\<lambda>f w. Rejected ?e404) (JNum (Dec 149239 0)) (JNum (Dec 3 0)) = Inr []"
    using getAttachmentIds_not_found_is_empty [OF f w, of "\<lambda>f w. Rejected ?e404" ?e404]
    by simp
  have b: "getAttachmentIds (\<lambda>f w. Rejected ?e403) (JNum (Dec 149239 0)) (JNum (Dec 3 0)) = Inl ?e403"
    using getAttachmentIds_not_found_is_empty [OF f w, of "\<lambda>f w. Rejected ?e403" ?e403]
    by simp
  from f w a b show ?thesis
    by blast
qed

subsection \<open>Session bootstrap\<close>

lemma initializeSession_resolves:
  "\<exists>b. fst (initializeSession c now write_ok fetched ev) = Resolved b"
  by (cases ev) (auto simp: initializeSession_def Let_def split: option.splits)

text \<open>
  C3, as the program has it. \<open>initializeSession\<close> never fails: on a network error, after
  the 30-second timeout, and when the response brings no usable cookie (no \<open>set-cookie\<close>
  header, or none with a \<open>name=value\<close> pair) its promise resolves to \<open>false\<close> and the
  client is left as it was; whatever happens, the promise resolves to a boolean.
\<close>

theorem initializeSession_never_rejects:
  "initializeSession c now write_ok fetched (RequestError error) = (Resolved False, c) \<and>
   initializeSession c now write_ok fetched RequestTimeout = (Resolved False, c) \<and>
   initializeSession c now write_ok fetched (ResponseEnd None) = (Resolved False, c) \<and>
   (cookie_header hs = [] \<longrightarrow>
      initializeSession c now write_ok fetched (ResponseEnd (Some hs)) = (Resolved False, c)) \<and>
   (\<exists>b. fst (initializeSession c now write_ok fetched ev) = Resolved b)"
  using initializeSession_resolves [of c now write_ok fetched ev]
  by (simp add: initializeSession_def)

theorem initializeSession_never_rejects_witness:
  "cookie_header [ascii ''Secure; HttpOnly''] = [] \<and>
   initializeSession \<lparr>sessionCookies = None, csrfToken = [], session_file = None\<rparr> 0 True
       (Resolved ([] :: jsval list)) (ResponseEnd (Some [ascii ''Secure; HttpOnly'']))
     = (Resolved False, \<lparr>sessionCookies = None, csrfToken = [], session_file = None\<rparr>)"
proof -
  have h: "cookie_header [ascii ''Secure; HttpOnly''] = []"
    by (simp add: cookie_header_def join_with_def ascii_def)
  show ?thesis
    using h initializeSession_never_rejects
      [of "\<lparr>sessionCookies = None, csrfToken = [], session_file = None\<rparr>" 0 True
          "Resolved ([] :: jsval list)" _ "[ascii ''Secure; HttpOnly'']"]
    by simp
qed

text \<open>
  C3 in the wording of the specification (the three cases end in an error) does not hold:
  a network error, the timeout and a response with no cookies each resolve the promise with
  \<open>false\<close>; nothing is raised.
\<close>

theorem initializeSession_failure_is_false:
  "fst (initializeSession \<lparr>sessionCookies = None, csrfToken = [], session_file = None\<rparr> 0 True
          (Resolved ([] :: jsval list))
          (RequestError \<lparr>err_name = ascii ''Error'', err_code = Some (ascii ''ENOTFOUND''),
                          err_status = None, err_message = ascii ''getaddrinfo ENOTFOUND''\<rparr>))
     = Resolved False \<and>
   fst (initializeSession \<lparr>sessionCookies = None, csrfToken = [], session_file = None\<rparr> 0 True
          (Resolved ([] :: jsval list)) RequestTimeout) = Resolved False \<and>
   fst (initializeSession \<lparr>sessionCookies = None, csrfToken = [], session_file = None\<rparr> 0 True
          (Resolved ([] :: jsval list)) (ResponseEnd None)) = Resolved False"
  by (simp add: initializeSession_def)

subsection \<open>Downloading with retries\<close>

lemma download_from_3:
  "download_from post rnd a 3 le sl =
     (case attempt_once post a 3 of
        Inr img \<Rightarrow> \<lparr>outcome = Inr img, attempts_made = 3, sleeps = sl\<rparr>
      | Inl e \<Rightarrow> \<lparr>outcome = Inl (Thrown e), attempts_made = 3, sleeps = sl\<rparr>)"
  by (subst download_from.simps) (simp add: maxRetries_def split: sum.splits)

lemma download_from_2:
  "download_from post rnd a 2 le sl =
     (case attempt_once post a 2 of
        Inr img \<Rightarrow> \<lparr>outcome = Inr img, attempts_made = 2, sleeps = sl\<rparr>
      | Inl e \<Rightarrow>
          if \<not> isRetryableError e then \<lparr>outcome = Inl (Thrown e), attempts_made = 2, sleeps = sl\<rparr>
          else download_from post rnd a 3 (Some e) (sl @ [calculateDelay 2 (rnd 2)]))"
  by (subst download_from.simps) (simp add: maxRetries_def split: sum.splits)

lemma download_from_1:
  "download_from post rnd a 1 le sl =
     (case attempt_once post a 1 of
        Inr img \<Rightarrow> \<lparr>outcome = Inr img, attempts_made = 1, sleeps = sl\<rparr>
      | Inl e \<Rightarrow>
          if \<not> isRetryableError e then \<lparr>outcome = Inl (Thrown e), attempts_made = 1, sleeps = sl\<rparr>
          else download_from post rnd a 2 (Some e) (sl @ [calculateDelay 1 (rnd 1)]))"
  by (subst download_from.simps) (simp add: maxRetries_def numeral_2_eq_2 split: sum.splits)

lemma downloadImageData_unrolled:
  "downloadImageData post rnd a =
     (case attempt_once post a 1 of
        Inr img \<Rightarrow> \<lparr>outcome = Inr img, attempts_made = 1, sleeps = []\<rparr>
      | Inl e1 \<Rightarrow>
          if \<not> isRetryableError e1 then
            \<lparr>outcome = Inl (Thrown e1), attempts_made = 1, sleeps = []\<rparr>
          else
            (case attempt_once post a 2 of
               Inr img \<Rightarrow>
                 \<lparr>outcome = Inr img, attempts_made = 2, sleeps = [calculateDelay 1 (rnd 1)]\<rparr>
             | Inl e2 \<Rightarrow>
                 if \<not> isRetryableError e2 then
                   \<lparr>outcome = Inl (Thrown e2), attempts_made = 2,
                    sleeps = [calculateDelay 1 (rnd 1)]\<rparr>
                 else
                   (case attempt_once post a 3 of
                      Inr img \<Rightarrow>
                        \<lparr>outcome = Inr img, attempts_made = 3,
                         sleeps = [calculateDelay 1 (rnd 1), calculateDelay 2 (rnd 2)]\<rparr>
                    | Inl e3 \<Rightarrow>
                        \<lparr>outcome = Inl (Thrown e3), attempts_made = 3,
                         sleeps = [calculateDelay 1 (rnd 1), calculateDelay 2 (rnd 2)]\<rparr>)))"
  unfolding downloadImageData_def download_from_1 download_from_2 download_from_3
  by (simp split: sum.splits)

lemma attempts_bounds:
  "1 \<le> attempts_made (downloadImageData post rnd a) \<and> attempts_made (downloadImageData post rnd a) \<le> 3"
  by (simp add: downloadImageData_unrolled split: sum.splits)

lemma calculateDelay_bounds:
  assumes "0 \<le> r" "r < 1" "1 \<le> n"
  shows "min (2000 * 2 ^ (n - 1)) 10000 \<le> calculateDelay n r \<and>
         calculateDelay n r \<le> min (2000 * 2 ^ (n - 1) + (1 / 10) * (2000 * 2 ^ (n - 1))) 10000"
proof -
  define E :: rat where "E = 2000 * 2 ^ (n - 1)"
  define J :: rat where "J = r * (1 / 10) * E"
  have p: "(2::rat) powi (int n - 1) = 2 ^ (n - 1)"
    using assms(3) by (simp add: power_int_def nat_diff_distrib')
  have pos: "0 < E"
    by (simp add: E_def)
  have j0: "0 \<le> J"
    using assms(1) pos by (simp add: J_def)
  have "r * ((1 / 10) * E) \<le> 1 * ((1 / 10) * E)"
    using assms(2) pos by (intro mult_right_mono) auto
  then have j1: "J \<le> (1 / 10) * E"
    by (simp add: J_def)
  have cd: "calculateDelay n r = min (E + J) 10000"
    by (simp add: calculateDelay_def Let_def baseDelay_def maxDelay_def p E_def J_def)
  have "min E 10000 \<le> min (E + J) 10000 \<and> min (E + J) 10000 \<le> min (E + (1 / 10) * E) 10000"
    using j0 j1 by (auto simp: min_def)
  then show ?thesis
    unfolding cd E_def .
qed

lemma isRetryableError_iff:
  "isRetryableError e \<longleftrightarrow>
     (\<exists>c. err_code e = Some c \<and> c \<in> set retryableErrors) \<or>
     (\<exists>s. err_status e = Some s \<and> (500 \<le> s \<or> s = 429)) \<or>
     str_includes (err_message e) (ascii ''timeout'') \<or>
     str_includes (err_message e) (ascii ''ECONNRESET'')"
  by (auto simp: isRetryableError_def split: option.splits)

text \<open>
  C5. \<open>downloadImageData\<close> makes at most three attempts. An error that is not retryable is
  thrown at once, with no further attempt and no sleep after it; after a retryable error
  of attempt 1 or 2 it sleeps \<open>calculateDelay\<close> of that attempt and tries again; when all
  three attempts fail the error thrown is that of the third. The delay after attempt
  \<open>n\<close> lies between \<open>2000 * 2 ^ (n - 1)\<close> ms and that plus ten percent, both capped at
  10000 ms. For an error whose HTTP status, if any, is a status code (below 600), the
  retryable errors are exactly the network-class ones (one of the five connection codes,
  or a message that mentions a timeout or ECONNRESET), status 500 to 599, and status 429.
\<close>

theorem download_retry_policy:
  "(1 \<le> attempts_made (downloadImageData post rnd a) \<and>
    attempts_made (downloadImageData post rnd a) \<le> 3) \<and>
   (attempt_once post a 1 = Inr img1 \<longrightarrow>
      downloadImageData post rnd a = \<lparr>outcome = Inr img1, attempts_made = 1, sleeps = []\<rparr>) \<and>
   (attempt_once post a 1 = Inl e1 \<and> \<not> isRetryableError e1 \<longrightarrow>
      downloadImageData post rnd a =
        \<lparr>outcome = Inl (Thrown e1), attempts_made = 1, sleeps = []\<rparr>) \<and>
   (attempt_once post a 1 = Inl e1 \<and> isRetryableError e1 \<and> attempt_once post a 2 = Inr img2 \<longrightarrow>
      downloadImageData post rnd a =
        \<lparr>outcome = Inr img2, attempts_made = 2, sleeps = [calculateDelay 1 (rnd 1)]\<rparr>) \<and>
   (attempt_once post a 1 = Inl e1 \<and> isRetryableError e1 \<and>
    attempt_once post a 2 = Inl e2 \<and> \<not> isRetryableError e2 \<longrightarrow>
      downloadImageData post rnd a =
        \<lparr>outcome = Inl (Thrown e2), attempts_made = 2, sleeps = [calculateDelay 1 (rnd 1)]\<rparr>) \<and>
   (attempt_once post a 1 = Inl e1 \<and> isRetryableError e1 \<and>
    attempt_once post a 2 = Inl e2 \<and> isRetryableError e2 \<and> attempt_once post a 3 = Inr img3 \<longrightarrow>
      downloadImageData post rnd a =
        \<lparr>outcome = Inr img3, attempts_made = 3,
         sleeps = [calculateDelay 1 (rnd 1), calculateDelay 2 (rnd 2)]\<rparr>) \<and>
   (attempt_once post a 1 = Inl e1 \<and> isRetryableError e1 \<and>
    attempt_once post a 2 = Inl e2 \<and> isRetryableError e2 \<and> attempt_once post a 3 = Inl e3 \<longrightarrow>
      downloadImageData post rnd a =
        \<lparr>outcome = Inl (Thrown e3), attempts_made = 3,
         sleeps = [calculateDelay 1 (rnd 1), calculateDelay 2 (rnd 2)]\<rparr>) \<and>
   (0 \<le> r \<and> r < 1 \<and> 1 \<le> n \<longrightarrow>
      min (2000 * 2 ^ (n - 1)) 10000 \<le> calculateDelay n r \<and>
      calculateDelay n r \<le> min (2000 * 2 ^ (n - 1) + (1 / 10) * (2000 * 2 ^ (n - 1))) 10000) \<and>
   ((\<forall>s. err_status e = Some s \<longrightarrow> s < 600) \<longrightarrow>
      isRetryableError e =
        ((\<exists>c. err_code e = Some c \<and> c \<in> set retryableErrors) \<or>
         str_includes (err_message e) (ascii ''timeout'') \<or>
         str_includes (err_message e) (ascii ''ECONNRESET'') \<or>
         (\<exists>s. err_status e = Some s \<and> 500 \<le> s \<and> s \<le> 599) \<or>
         err_status e = Some 429))"
proof -
  have run: "(attempt_once post a 1 = Inr img1 \<longrightarrow>
      downloadImageData post rnd a = \<lparr>outcome = Inr img1, attempts_made = 1, sleeps = []\<rparr>) \<and>
   (attempt_once post a 1 = Inl e1 \<and> \<not> isRetryableError e1 \<longrightarrow>
      downloadImageData post rnd a =
        \<lparr>outcome = Inl (Thrown e1), attempts_made = 1, sleeps = []\<rparr>) \<and>
   (attempt_once post a 1 = Inl e1 \<and> isRetryableError e1 \<and> attempt_once post a 2 = Inr img2 \<longrightarrow>
      downloadImageData post rnd a =
        \<lparr>outcome = Inr img2, attempts_made = 2, sleeps = [calculateDelay 1 (rnd 1)]\<rparr>) \<and>
   (attempt_once post a 1 = Inl e1 \<and> isRetryableError e1 \<and>
    attempt_once post a 2 = Inl e2 \<and> \<not> isRetryableError e2 \<longrightarrow>
      downloadImageData post rnd a =
        \<lparr>outcome = Inl (Thrown e2), attempts_made = 2, sleeps = [calculateDelay 1 (rnd 1)]\<rparr>) \<and>
   (attempt_once post a 1 = Inl e1 \<and> isRetryableError e1 \<and>
    attempt_once post a 2 = Inl e2 \<and> isRetryableError e2 \<and> attempt_once post a 3 = Inr img3 \<longrightarrow>
      downloadImageData post rnd a =
        \<lparr>outcome = Inr img3, attempts_made = 3,
         sleeps = [calculateDelay 1 (rnd 1), calculateDelay 2 (rnd 2)]\<rparr>) \<and>
   (attempt_once post a 1 = Inl e1 \<and> isRetryableError e1 \<and>
    attempt_once post a 2 = Inl e2 \<and> isRetryableError e2 \<and> attempt_once post a 3 = Inl e3 \<longrightarrow>
      downloadImageData post rnd a =
        \<lparr>outcome = Inl (Thrown e3), attempts_made = 3,
         sleeps = [calculateDelay 1 (rnd 1), calculateDelay 2 (rnd 2)]\<rparr>)"
    by (simp add: downloadImageData_unrolled)
  have delay: "0 \<le> r \<and> r < 1 \<and> 1 \<le> n \<longrightarrow>
      min (2000 * 2 ^ (n - 1)) 10000 \<le> calculateDelay n r \<and>
      calculateDelay n r \<le> min (2000 * 2 ^ (n - 1) + (1 / 10) * (2000 * 2 ^ (n - 1))) 10000"
    using calculateDelay_bounds [of r n] by blast
  have retry: "(\<forall>s. err_status e = Some s \<longrightarrow> s < 600) \<longrightarrow>
      isRetryableError e =
        ((\<exists>c. err_code e = Some c \<and> c \<in> set retryableErrors) \<or>
         str_includes (err_message e) (ascii ''timeout'') \<or>
         str_includes (err_message e) (ascii ''ECONNRESET'') \<or>
         (\<exists>s. err_status e = Some s \<and> 500 \<le> s \<and> s \<le> 599) \<or>
         err_status e = Some 429)"
    unfolding isRetryableError_iff by fastforce
  from attempts_bounds [of post rnd a] run delay retry show ?thesis
    by blast
qed

theorem download_retry_policy_witness:
  "downloadImageData
     (\<lambda>n body. Rejected \<lparr>err_name = ascii ''AxiosError'',
                          err_code = Some (ascii ''ERR_BAD_RESPONSE''),
                          err_status = Some (500 + n), err_message = ascii ''Request failed''\<rparr>)
     (\<lambda>n. 1 / 2) (JNum (Dec 7 0))
   = \<lparr>outcome = Inl (Thrown \<lparr>err_name = ascii ''AxiosError'',
                               err_code = Some (ascii ''ERR_BAD_RESPONSE''),
                               err_status = Some 503, err_message = ascii ''Request failed''\<rparr>),
      attempts_made = 3, sleeps = [2100, 4200]\<rparr> \<and>
   calculateDelay 2 (1 / 2) \<le> 4400 \<and>
   \<not> isRetryableError \<lparr>err_name = ascii ''AxiosError'', err_code = Some (ascii ''ERR_BAD_REQUEST''),
        err_status = Some 404, err_message = ascii ''Request failed with status code 404''\<rparr>"
proof -
  define post :: "nat \<Rightarrow> jsstring \<Rightarrow> download_data promise_result"
    where "post = (\<lambda>n body. Rejected \<lparr>err_name = ascii ''AxiosError'',
      err_code = Some (ascii ''ERR_BAD_RESPONSE''), err_status = Some (500 + n),
      err_message = ascii ''Request failed''\<rparr>)"
  define e :: "nat \<Rightarrow> js_error"
    where "e = (\<lambda>n. \<lparr>err_name = ascii ''AxiosError'',
      err_code = Some (ascii ''ERR_BAD_RESPONSE''), err_status = Some (500 + n),
      err_message = ascii ''Request failed''\<rparr>)"
  define e404 :: js_error
    where "e404 = \<lparr>err_name = ascii ''AxiosError'', err_code = Some (ascii ''ERR_BAD_REQUEST''),
        err_status = Some 404, err_message = ascii ''Request failed with status code 404''\<rparr>"
  have a: "attempt_once post (JNum (Dec 7 0)) k = Inl (e k)" for k
    by (simp add: attempt_once_def post_def e_def)
  have r: "isRetryableError (e k)" for k
    by (simp add: isRetryableError_def e_def)
  have v: "\<forall>s. err_status e404 = Some s \<longrightarrow> s < 600"
    by (simp add: e404_def)
  have h: "0 \<le> (1 / 2 :: rat) \<and> (1 / 2 :: rat) < 1 \<and> 1 \<le> (2 :: nat)"
    by simp
  note T = download_retry_policy [of post "\<lambda>n. 1 / 2" "JNum (Dec 7 0)" _ "e 1" _ "e 2"
      _ "e 3" "1 / 2" 2 e404]
  note T7 = T [THEN conjunct2, THEN conjunct2, THEN conjunct2, THEN conjunct2, THEN conjunct2,
      THEN conjunct2, THEN conjunct1]
  note T8 = T [THEN conjunct2, THEN conjunct2, THEN conjunct2, THEN conjunct2, THEN conjunct2,
      THEN conjunct2, THEN conjunct2, THEN conjunct1]
  note T9 = T [THEN conjunct2, THEN conjunct2, THEN conjunct2, THEN conjunct2, THEN conjunct2,
      THEN conjunct2, THEN conjunct2, THEN conjunct2]
  have run: "downloadImageData post (\<lambda>n. 1 / 2) (JNum (Dec 7 0)) =
      \<lparr>outcome = Inl (Thrown (e 3)), attempts_made = 3,
       sleeps = [calculateDelay 1 (1 / 2), calculateDelay 2 (1 / 2)]\<rparr>"
    by (rule T7 [THEN mp]) (intro conjI a r)
  have d: "calculateDelay 1 (1 / 2) = 2100" "calculateDelay 2 (1 / 2) = 4200"
    by (simp_all add: calculateDelay_def baseDelay_def maxDelay_def)
  have b: "calculateDelay 2 (1 / 2) \<le> 4400"
    using T8 [THEN mp, OF h] by simp
  have "isRetryableError e404 =
        ((\<exists>c. err_code e404 = Some c \<and> c \<in> set retryableErrors) \<or>
         str_includes (err_message e404) (ascii ''timeout'') \<or>
         str_includes (err_message e404) (ascii ''ECONNRESET'') \<or>
         (\<exists>s. err_status e404 = Some s \<and> 500 \<le> s \<and> s \<le> 599) \<or>
         err_status e404 = Some 429)"
    by (rule T9 [THEN mp, OF v])
  then have n: "\<not> isRetryableError e404"
    by (simp add: e404_def retryableErrors_def ascii_def)
  have e3: "e 3 = \<lparr>err_name = ascii ''AxiosError'', err_code = Some (ascii ''ERR_BAD_RESPONSE''),
       err_status = Some 503, err_message = ascii ''Request failed''\<rparr>"
    by (simp add: e_def)
  from run d b n show ?thesis
    unfolding post_def e404_def e3 by simp
qed

subsection \<open>Upload and existence probe\<close>

text \<open>
  For a file name that ends in \<open>.jpg\<close> the probe finds what the upload stored, and in
  an empty bucket it finds nothing.
\<close>

lemma upload_jpg_then_exists:
  assumes "split_pop 46 name = ascii ''jpg''"
    and "toString_method work = Some w" and "toString_method att = Some a"
    and "uploadImageToR2 domain bucket None work phase att bytes name = (res, bucket')"
  shows "imageExistsInR2 bucket' None work phase att = Inr True"
  using assms
  by (auto simp: uploadImageToR2_def imageExistsInR2_def head_object_def Let_def ascii_def)

lemma exists_in_empty_bucket:
  "imageExistsInR2 Map.empty None work phase att = Inr False"
  by (simp add: imageExistsInR2_def head_object_def)

text \<open>
  C2 at a file name whose extension is not \<open>jpg\<close>: the upload of \<open>photo.png\<close> for work
  149239, phase completed, attachment 7 into an empty bucket succeeds and stores the object
  under the key ending in \<open>7_original.png\<close>, and the existence probe for the same triple
  then answers \<open>false\<close>, because it asks for the key ending in \<open>7_original.jpg\<close>.
\<close>

theorem upload_png_then_exists_is_false:
  "(case uploadImageToR2 (ascii ''cdn.example.org'') Map.empty None (JNum (Dec 149239 0))
           (ascii ''completed'') (JNum (Dec 7 0)) [137, 80, 78, 71] (ascii ''photo.png'') of
      (Inr r, bucket) \<Rightarrow>
        r2Key r = ascii ''works/149239/completed/7_original.png'' \<and>
        imageExistsInR2 bucket None (JNum (Dec 149239 0)) (ascii ''completed'') (JNum (Dec 7 0))
          = Inr False
    | (Inl e, bucket) \<Rightarrow> False)"
  by (simp add: uploadImageToR2_def imageExistsInR2_def head_object_def split_pop_def
      toString_examples ascii_def Let_def del: Number_toString.simps)

subsection \<open>Recommended works against completed works\<close>

lemma recommended_keep_id:
  assumes "recommended_keep S raw"
  shows "or_zero (parseInt (field raw ''WORK_RECOMMENDATION_DTL_ID'')) \<notin> S \<and>
         num_truthy (or_zero (parseInt (field raw ''WORK_RECOMMENDATION_DTL_ID'')))"
  using assms
  by (auto simp: recommended_keep_def or_zero_def Let_def split: if_splits)

lemma transformWorksRecommended_ids:
  assumes "r \<in> set (transformWorksRecommended rows h t S)"
  shows "rec_workId r \<notin> S \<and> num_truthy (rec_workId r)"
proof -
  from assms obtain raw i where
    m: "(raw, i) \<in> set (zip (filter (recommended_keep S) rows)
                           [0 ..< length (filter (recommended_keep S) rows)])"
    and r: "rec_workId r = or_zero (parseInt (field raw ''WORK_RECOMMENDATION_DTL_ID''))"
    by (auto simp: transformWorksRecommended_def Let_def)
  from m have "raw \<in> set (filter (recommended_keep S) rows)"
    by (rule set_zip_leftD)
  then have "recommended_keep S raw"
    by simp
  from recommended_keep_id [OF this] r show ?thesis
    by simp
qed

lemma not_in_completed:
  assumes "r \<in> set (transformWorksRecommended rows h t (completed_id_set ws))"
  shows "rec_workId r \<notin> workId ` set ws"
proof
  assume "rec_workId r \<in> workId ` set ws"
  moreover from transformWorksRecommended_ids [OF assms]
  have "rec_workId r \<notin> completed_id_set ws" and "num_truthy (rec_workId r)"
    by simp_all
  ultimately show False
    by (auto simp: completed_id_set_def)
qed

text \<open>
  C1. In every transformed batch, for each house, no recommended work record has a work
  id that is the work id of a completed work record of the same batch.
\<close>

theorem recommended_ids_not_completed:
  "(\<forall>r \<in> set (works_recommended (lok_sabha (transformAllData apiData t))).
      rec_workId r \<notin> workId ` set (works_completed (lok_sabha (transformAllData apiData t)))) \<and>
   (\<forall>r \<in> set (works_recommended (rajya_sabha (transformAllData apiData t))).
      rec_workId r \<notin> workId ` set (works_completed (rajya_sabha (transformAllData apiData t))))"
  by (simp add: transformAllData_def Let_def not_in_completed)

text \<open>
  A batch whose completed rows hold work 101 and whose recommended rows hold works 101 and
  102: only 102 is kept as recommended.
\<close>

theorem recommended_ids_not_completed_witness:
  "map rec_workId (works_recommended (lok_sabha (transformAllData
      \<lparr>api_lok_sabha =
         \<lparr>rows_completed =
            [[(''STATE_NAME'', JStr (ascii ''Bihar'')), (''MP_NAME'', JStr (ascii ''A. Kumar'')),
              (''WORK_RECOMMENDATION_DTL_ID'', JStr (ascii ''101'')),
              (''ACTUAL_END_DATE'', JStr (ascii ''15-Aug-2025'')),
              (''ACTUAL_AMOUNT'', JStr (ascii ''5000''))]],
          rows_recommended =
            [[(''STATE_NAME'', JStr (ascii ''Bihar'')), (''MP_NAME'', JStr (ascii ''A. Kumar'')),
              (''WORK_RECOMMENDATION_DTL_ID'', JStr (ascii ''101'')),
              (''RECOMMENDATION_DATE'', JStr (ascii ''01-Jan-2025'')),
              (''RECOMMENDED_AMOUNT'', JStr (ascii ''5000''))],
             [(''STATE_NAME'', JStr (ascii ''Bihar'')), (''MP_NAME'', JStr (ascii ''A. Kumar'')),
              (''WORK_RECOMMENDATION_DTL_ID'', JNum (Dec 102 0)),
              (''RECOMMENDATION_DATE'', JStr (ascii ''01-Jan-2025'')),
              (''RECOMMENDED_AMOUNT'', JStr (ascii ''7000''))]]\<rparr>,
       api_rajya_sabha = \<lparr>rows_completed = [], rows_recommended = []\<rparr>\<rparr>
      (JStr (ascii ''18''))))) = [Dec 102 0] \<and>
   Dec 102 0 \<notin> workId ` set (works_completed (lok_sabha (transformAllData
      \<lparr>api_lok_sabha =
         \<lparr>rows_completed =
            [[(''STATE_NAME'', JStr (ascii ''Bihar'')), (''MP_NAME'', JStr (ascii ''A. Kumar'')),
              (''WORK_RECOMMENDATION_DTL_ID'', JStr (ascii ''101'')),
              (''ACTUAL_END_DATE'', JStr (ascii ''15-Aug-2025'')),
              (''ACTUAL_AMOUNT'', JStr (ascii ''5000''))]],
          rows_recommended =
            [[(''STATE_NAME'', JStr (ascii ''Bihar'')), (''MP_NAME'', JStr (ascii ''A. Kumar'')),
              (''WORK_RECOMMENDATION_DTL_ID'', JStr (ascii ''101'')),
              (''RECOMMENDATION_DATE'', JStr (ascii ''01-Jan-2025'')),
              (''RECOMMENDED_AMOUNT'', JStr (ascii ''5000''))],
             [(''STATE_NAME'', JStr (ascii ''Bihar'')), (''MP_NAME'', JStr (ascii ''A. Kumar'')),
              (''WORK_RECOMMENDATION_DTL_ID'', JNum (Dec 102 0)),
              (''RECOMMENDATION_DATE'', JStr (ascii ''01-Jan-2025'')),
              (''RECOMMENDED_AMOUNT'', JStr (ascii ''7000''))]]\<rparr>,
       api_rajya_sabha = \<lparr>rows_completed = [], rows_recommended = []\<rparr>\<rparr>
      (JStr (ascii ''18'')))))"
  (is "map rec_workId (works_recommended (lok_sabha ?res)) = _ \<and> _")
proof -
  have n101: "mk_number 101 0 = Dec 101 0" and n102: "mk_number 102 0 = Dec 102 0"
    by (simp_all add: num_eval)
  have ids: "map rec_workId (works_recommended (lok_sabha ?res)) = [Dec 102 0]"
    by (simp add: transformAllData_def transformWorksCompleted_def
        transformWorksRecommended_def completed_keep_def recommended_keep_def names_ok_def
        field_def js_or_def trim_def is_space_def toLowerCase_def lower_unit_def parseInt_def
        digit_of_radix_def hex_val_def radix_val_def n101 n102 toString_examples
        num_truthy_def or_zero_def completed_id_set_def ascii_def Let_def
        del: Number_toString.simps)
  then obtain r where r: "r \<in> set (works_recommended (lok_sabha ?res))" "rec_workId r = Dec 102 0"
    by (cases "works_recommended (lok_sabha ?res)") auto
  from recommended_ids_not_completed [of _ "JStr (ascii ''18'')"] r
  have "Dec 102 0 \<notin> workId ` set (works_completed (lok_sabha ?res))"
    by metis
  with ids show ?thesis
    by simp
qed

subsection \<open>The currency normalizer\<close>

subsubsection \<open>Numbers\<close>

lemma norm_dec_canonical: "canonical m e \<Longrightarrow> norm_dec m e = (m, e)"
  by (subst norm_dec.simps) (auto simp: canonical_def)

lemma norm_dec_gives_canonical: "norm_dec m e = (m', e') \<Longrightarrow> canonical m' e'"
proof (induction m e rule: norm_dec.induct)
  case (1 m e)
  then show ?case
    by (subst (asm) (2) norm_dec.simps) (auto simp: canonical_def split: if_splits)
qed

lemma norm_dec_nonneg: "0 \<le> m \<Longrightarrow> norm_dec m e = (m', e') \<Longrightarrow> 0 \<le> m'"
proof (induction m e rule: norm_dec.induct)
  case (1 m e)
  from "1.prems" show ?case
    by (subst (asm) norm_dec.simps) (auto split: if_splits intro: "1.IH" simp: pos_imp_zdiv_nonneg_iff)
qed

lemma norm_dec_value:
  "norm_dec m e = (m', e') \<Longrightarrow> (of_int m' :: rat) * 10 powi e' = of_int m * 10 powi e"
proof (induction m e rule: norm_dec.induct)
  case (1 m e)
  show ?case
  proof (cases "m = 0")
    case True
    with "1.prems" show ?thesis
      by (subst (asm) norm_dec.simps) simp
  next
    case nz: False
    show ?thesis
    proof (cases "m mod 10 = 0")
      case True
      with nz "1.prems" have "norm_dec (m div 10) (e + 1) = (m', e')"
        by (subst (asm) norm_dec.simps) simp
      from "1.IH" [OF nz True this]
      have "(of_int m' :: rat) * 10 powi e' = of_int (m div 10) * 10 powi (e + 1)" .
      also have "\<dots> = of_int (m div 10) * 10 * 10 powi e"
        by (simp add: power_int_add)
      also have "of_int (m div 10) * (10::rat) = of_int (m div 10 * 10)"
        by simp
      also have "m div 10 * 10 = m"
        using True by (simp add: mod_0_imp_dvd)
      finally show ?thesis .
    next
      case False
      with nz "1.prems" show ?thesis
        by (subst (asm) norm_dec.simps) simp
    qed
  qed
qed


lemma canonical_unique_le:
  assumes "m mod 10 \<noteq> 0" "(of_int m :: rat) * 10 powi e = of_int m' * 10 powi e'" "e \<le> e'"
  shows "m = m' \<and> e = e'"
proof -
  define d where "d = nat (e' - e)"
  have e': "e' = e + int d"
    using assms(3) by (simp add: d_def)
  have "(10::rat) powi e' = 10 powi e * 10 ^ d"
    unfolding e' by (simp add: power_int_add)
  with assms(2) have "(of_int m :: rat) * 10 powi e = of_int (m' * 10 ^ d) * 10 powi e"
    by simp
  then have "(of_int m :: rat) = of_int (m' * 10 ^ d)"
    by simp
  then have m: "m = m' * 10 ^ d"
    by (simp only: of_int_eq_iff)
  have "d = 0"
  proof (rule ccontr)
    assume "d \<noteq> 0"
    then obtain d' where "d = Suc d'"
      by (cases d) auto
    with m have "m mod 10 = 0"
      by simp
    with assms(1) show False
      by simp
  qed
  with m e' show ?thesis
    by simp
qed

lemma canonical_unique:
  assumes "canonical m e" "canonical m' e'"
    and "(of_int m :: rat) * 10 powi e = of_int m' * 10 powi e'"
  shows "m = m' \<and> e = e'"
proof (cases "m = 0 \<or> m' = 0")
  case True
  with assms(3) have "m = 0 \<and> m' = 0"
    by auto
  with assms(1,2) show ?thesis
    by (simp add: canonical_def)
next
  case False
  with assms(1,2) have c: "m mod 10 \<noteq> 0" "m' mod 10 \<noteq> 0"
    by (auto simp: canonical_def)
  show ?thesis
  proof (cases "e \<le> e'")
    case True
    from canonical_unique_le [OF c(1) assms(3) True] show ?thesis .
  next
    case False
    then have "e' \<le> e"
      by simp
    from canonical_unique_le [OF c(2) assms(3) [symmetric] this] show ?thesis
      by simp
  qed
qed

subsubsection \<open>Binades\<close>

lemma two_powi_Suc: "(2::rat) powi (b + 1) = 2 * 2 powi b"
  by (simp add: power_int_add)

lemma bin_up_spec:
  "1 \<le> x \<Longrightarrow> 0 \<le> bin_up x \<and> 2 powi (bin_up x) \<le> x \<and> x < 2 powi (bin_up x + 1)"
proof (induction x rule: bin_up.induct)
  case (1 x)
  show ?case
  proof (cases "x < 2")
    case True
    with "1.prems" show ?thesis
      by (subst (1 2 3) bin_up.simps) simp
  next
    case False
    then have "1 \<le> x / 2"
      by simp
    from "1.IH" [OF False this]
    have ih: "0 \<le> bin_up (x / 2)" "2 powi (bin_up (x / 2)) \<le> x / 2"
      "x / 2 < 2 powi (bin_up (x / 2) + 1)"
      by simp_all
    have b: "bin_up x = bin_up (x / 2) + 1"
      using False by (subst bin_up.simps) simp
    from ih show ?thesis
      unfolding b two_powi_Suc by simp
  qed
qed

lemma bin_down_spec:
  "0 < x \<Longrightarrow> x < 2 \<Longrightarrow>
     - int k \<le> bin_down k x \<and> bin_down k x \<le> 0 \<and>
     (2 powi (- int k) \<le> x \<longrightarrow> 2 powi (bin_down k x) \<le> x \<and> x < 2 powi (bin_down k x + 1)) \<and>
     (x < 2 powi (- int k) \<longrightarrow> bin_down k x = - int k)"
proof (induction k arbitrary: x)
  case 0
  then show ?case
    by simp
next
  case (Suc k)
  show ?case
  proof (cases "1 \<le> x")
    case True
    have "(2::rat) powi (- int (Suc k)) \<le> 2 powi 0"
      by (intro power_int_increasing) simp_all
    with True have "\<not> x < 2 powi (- int (Suc k))"
      by simp
    with True Suc.prems show ?thesis
      by simp
  next
    case False
    then have x1: "x < 1"
      by simp
    from Suc.prems x1 have "0 < 2 * x" "2 * x < 2"
      by simp_all
    from Suc.IH [OF this]
    have ih: "- int k \<le> bin_down k (2 * x)" "bin_down k (2 * x) \<le> 0"
      "2 powi (- int k) \<le> 2 * x \<longrightarrow>
         2 powi (bin_down k (2 * x)) \<le> 2 * x \<and> 2 * x < 2 powi (bin_down k (2 * x) + 1)"
      "2 * x < 2 powi (- int k) \<longrightarrow> bin_down k (2 * x) = - int k"
      by simp_all
    define b' where "b' = bin_down k (2 * x)"
    define P where "P = (2::rat) powi (b' - 1)"
    define Q where "Q = (2::rat) powi (- int (Suc k))"
    have b: "bin_down (Suc k) x = b' - 1"
      using False by (simp add: b'_def)
    have e1: "(2::rat) powi b' = 2 * P"
      using two_powi_Suc [of "b' - 1"] by (simp add: P_def)
    have e2: "(2::rat) powi (b' + 1) = 4 * P"
      using two_powi_Suc [of b'] e1 by simp
    have e3: "(2::rat) powi (- int k) = 2 * Q"
      using two_powi_Suc [of "- int (Suc k)"] by (simp add: Q_def)
    have e4: "(2::rat) powi (b' - 1 + 1) = 2 * P"
      using e1 by simp
    from ih have c1: "- int (Suc k) \<le> b' - 1" and c2: "b' - 1 \<le> 0"
      by (simp_all add: b'_def)
    have c3: "Q \<le> x \<longrightarrow> P \<le> x \<and> x < 2 * P"
      using ih(3) unfolding b'_def [symmetric] e1 e2 e3 by simp
    have c4: "x < Q \<longrightarrow> b' - 1 = - int (Suc k)"
      using ih(4) unfolding b'_def [symmetric] e3 by simp
    from c1 c2 c3 c4 show ?thesis
      unfolding b e4 P_def [symmetric] Q_def [symmetric] by simp
  qed
qed

lemma binade_spec:
  assumes "0 < x"
  shows "- 1022 \<le> binade x \<and>
     (2 powi (- 1022) \<le> x \<longrightarrow> 2 powi (binade x) \<le> x \<and> x < 2 powi (binade x + 1)) \<and>
     (x < 2 powi (- 1022) \<longrightarrow> binade x = - 1022)"
proof (cases "1 \<le> x")
  case True
  have "(2::rat) powi (- 1022) \<le> 2 powi 0"
    by (intro power_int_increasing) simp_all
  with True have "\<not> x < 2 powi (- 1022)"
    by simp
  with bin_up_spec [OF True] True show ?thesis
    by (simp add: binade_def)
next
  case False
  with assms have "0 < x" "x < 2"
    by simp_all
  from bin_down_spec [OF this, of 1022] False show ?thesis
    by (simp add: binade_def)
qed

lemma binade_eq:
  assumes "0 < x" "- 1022 \<le> b" "2 powi b \<le> x" "x < 2 powi (b + 1)"
  shows "binade x = b"
proof -
  have "(2::rat) powi (- 1022) \<le> 2 powi b"
    using assms(2) by (intro power_int_increasing) simp_all
  with assms(3) have "2 powi (- 1022) \<le> x"
    by simp
  with binade_spec [OF assms(1)]
  have c: "2 powi (binade x) \<le> x" "x < 2 powi (binade x + 1)"
    by simp_all
  have "binade x < b + 1"
  proof (rule ccontr)
    assume "\<not> binade x < b + 1"
    then have "(2::rat) powi (b + 1) \<le> 2 powi (binade x)"
      by (intro power_int_increasing) simp_all
    with c(1) assms(4) show False
      by simp
  qed
  moreover have "b < binade x + 1"
  proof (rule ccontr)
    assume "\<not> b < binade x + 1"
    then have "(2::rat) powi (binade x + 1) \<le> 2 powi b"
      by (intro power_int_increasing) simp_all
    with c(2) assms(3) show False
      by simp
  qed
  ultimately show ?thesis
    by simp
qed

lemma binade_subnormal: "0 < x \<Longrightarrow> x < 2 powi (- 1022) \<Longrightarrow> binade x = - 1022"
  using binade_spec [of x] by simp

subsubsection \<open>Rounding to an integer\<close>

lemma round_half_even_int: "round_half_even (of_int n) = n"
  by (simp add: round_half_even_def)

lemma round_half_even_ge: "of_int n \<le> y \<Longrightarrow> n \<le> round_half_even y"
proof -
  assume "of_int n \<le> y"
  then have "n \<le> \<lfloor>y\<rfloor>"
    by (simp add: le_floor_iff)
  then show ?thesis
    by (simp add: round_half_even_def)
qed

lemma round_half_even_le: "y \<le> of_int n \<Longrightarrow> round_half_even y \<le> n"
proof (cases "y = of_int n")
  case True
  then show ?thesis
    by (simp add: round_half_even_int)
next
  case False
  assume "y \<le> of_int n"
  with False have "y < of_int n"
    by simp
  then have "\<lfloor>y\<rfloor> < n"
    by (simp add: floor_less_iff)
  then show ?thesis
    unfolding round_half_even_def by auto
qed

lemma round_half_even_tie:
  assumes "of_int n - 1 / 2 \<le> y" "even n"
  shows "n \<le> round_half_even y"
proof -
  have "of_int (n - 1) \<le> y"
    using assms(1) by simp
  then have f: "n - 1 \<le> \<lfloor>y\<rfloor>"
    by (simp only: le_floor_iff)
  show ?thesis
  proof (cases "n \<le> \<lfloor>y\<rfloor>")
    case True
    then show ?thesis
      by (simp add: round_half_even_def)
  next
    case False
    with f have fl: "\<lfloor>y\<rfloor> = n - 1"
      by simp
    with assms(2) have odd: "odd \<lfloor>y\<rfloor>"
      by simp
    have "1 / 2 \<le> y - of_int \<lfloor>y\<rfloor>"
      using assms(1) unfolding fl by simp
    with odd fl show ?thesis
      by (simp add: round_half_even_def)
  qed
qed


subsubsection \<open>Rounding to a double\<close>

lemma powi_split: "b = c + int k \<Longrightarrow> (2::rat) powi b = 2 ^ k * 2 powi c"
  by (simp add: power_int_add)

lemma reduce_binary_value:
  "reduce_binary n k = (n', k') \<Longrightarrow>
     (of_int n' :: rat) * 2 powi (- int k') = of_int n * 2 powi (- int k) \<and> (0 \<le> n \<longrightarrow> 0 \<le> n')"
proof (induction n k rule: reduce_binary.induct)
  case (1 n)
  then show ?case
    by simp
next
  case (2 n k)
  show ?case
  proof (cases "even n")
    case True
    with "2.prems" have "reduce_binary (n div 2) k = (n', k')"
      by simp
    from "2.IH" [OF True this]
    have ih: "(of_int n' :: rat) * 2 powi (- int k') = of_int (n div 2) * 2 powi (- int k)"
      "0 \<le> n div 2 \<longrightarrow> 0 \<le> n'"
      by simp_all
    have "(2::rat) powi (- int k) = 2 ^ 1 * 2 powi (- int (Suc k))"
      by (rule powi_split) simp
    then have "(of_int (n div 2) :: rat) * 2 powi (- int k)
        = of_int (n div 2 * 2) * 2 powi (- int (Suc k))"
      by simp
    also have "n div 2 * 2 = n"
      using True by simp
    finally have "(of_int (n div 2) :: rat) * 2 powi (- int k) = of_int n * 2 powi (- int (Suc k))" .
    with ih show ?thesis
      by (simp add: pos_imp_zdiv_nonneg_iff)
  next
    case False
    with "2.prems" show ?thesis
      by simp
  qed
qed

lemma dec_of_binary_cases:
  "\<exists>m e. dec_of_binary n j = Dec m e \<and> canonical m e \<and>
     (of_int m :: rat) * 10 powi e = of_int n * 2 powi j \<and> (0 \<le> n \<longrightarrow> 0 \<le> m)"
proof (cases "0 \<le> j")
  case True
  obtain m e where nd: "norm_dec (n * 2 ^ nat j) 0 = (m, e)"
    by (cases "norm_dec (n * 2 ^ nat j) 0")
  have d: "dec_of_binary n j = Dec m e"
    using True nd by (simp add: dec_of_binary_def)
  have "(of_int m :: rat) * 10 powi e = of_int (n * 2 ^ nat j) * 10 powi 0"
    by (rule norm_dec_value [OF nd])
  also have "\<dots> = of_int n * 2 powi j"
    using True by (simp add: power_int_def)
  finally have v: "(of_int m :: rat) * 10 powi e = of_int n * 2 powi j" .
  have "0 \<le> n \<longrightarrow> 0 \<le> m"
    using norm_dec_nonneg [OF _ nd] by simp
  with d v norm_dec_gives_canonical [OF nd] show ?thesis
    by blast
next
  case False
  then have j: "j = - int (nat (- j))"
    by simp
  obtain n' k where r: "reduce_binary n (nat (- j)) = (n', k)"
    by (cases "reduce_binary n (nat (- j))")
  from reduce_binary_value [OF r] j
  have rv: "(of_int n' :: rat) * 2 powi (- int k) = of_int n * 2 powi j"
    and rs: "0 \<le> n \<longrightarrow> 0 \<le> n'"
    by simp_all
  obtain m e where nd: "norm_dec (n' * 5 ^ k) (- int k) = (m, e)"
    by (cases "norm_dec (n' * 5 ^ k) (- int k)")
  have d: "dec_of_binary n j = Dec m e"
    using False r nd by (simp add: dec_of_binary_def)
  have p: "(5::rat) ^ k * 10 powi (- int k) = 2 powi (- int k)"
  proof -
    have "(10::rat) ^ k = 5 ^ k * 2 ^ k"
      using power_mult_distrib [of "5::rat" 2 k] by simp
    then show ?thesis
      by (simp add: power_int_minus)
  qed
  have "(of_int m :: rat) * 10 powi e = of_int (n' * 5 ^ k) * 10 powi (- int k)"
    by (rule norm_dec_value [OF nd])
  also have "\<dots> = of_int n' * (5 ^ k * 10 powi (- int k))"
    by simp
  also have "\<dots> = of_int n * 2 powi j"
    unfolding p by (rule rv)
  finally have v: "(of_int m :: rat) * 10 powi e = of_int n * 2 powi j" .
  have "0 \<le> n \<longrightarrow> 0 \<le> m"
    using norm_dec_nonneg [OF _ nd] rs by simp
  with d v norm_dec_gives_canonical [OF nd] show ?thesis
    by blast
qed

lemma dec_of_binary_eq:
  assumes "(of_int n :: rat) * 2 powi j = of_int n' * 2 powi j'"
  shows "dec_of_binary n j = dec_of_binary n' j'"
proof -
  from dec_of_binary_cases [of n j] obtain m e
    where a: "dec_of_binary n j = Dec m e" "canonical m e"
      "(of_int m :: rat) * 10 powi e = of_int n * 2 powi j"
    by blast
  from dec_of_binary_cases [of n' j'] obtain m' e'
    where b: "dec_of_binary n' j' = Dec m' e'" "canonical m' e'"
      "(of_int m' :: rat) * 10 powi e' = of_int n' * 2 powi j'"
    by blast
  from a(3) b(3) assms have "(of_int m :: rat) * 10 powi e = of_int m' * 10 powi e'"
    by simp
  from canonical_unique [OF a(2) b(2) this] a(1) b(1) show ?thesis
    by simp
qed

lemma dec_of_binary_zero: "dec_of_binary 0 j = Dec 0 0"
  using dec_of_binary_cases [of 0 j] by (auto simp: canonical_def)

lemma round_double_pos:
  "0 < x \<Longrightarrow>
     round_double x =
       pack_double False (binade x) (round_half_even (x / 2 powi (binade x - 52)))"
  by (simp add: round_double_def round_in_binade_def)

lemma mantissa_bounds:
  assumes "0 < x"
  shows "0 \<le> round_half_even (x / 2 powi (binade x - 52)) \<and>
         round_half_even (x / 2 powi (binade x - 52)) \<le> 2 ^ 53 \<and>
         (2 powi (- 1022) \<le> x \<longrightarrow> 2 ^ 52 \<le> round_half_even (x / 2 powi (binade x - 52))) \<and>
         (x < 2 powi (- 1022) \<longrightarrow>
            binade x = - 1022 \<and> round_half_even (x / 2 powi (binade x - 52)) \<le> 2 ^ 52)"
proof -
  define ex where "ex = binade x"
  define q where "q = (2::rat) powi (ex - 52)"
  have q: "0 < q"
    by (simp add: q_def)
  have E0: "(2::rat) powi ex = 2 ^ 52 * q"
    unfolding q_def by (rule powi_split) simp
  have E1: "(2::rat) powi (ex + 1) = 2 ^ 53 * q"
    unfolding q_def by (rule powi_split) simp
  have nn: "0 \<le> round_half_even (x / q)"
  proof (rule round_half_even_ge)
    show "of_int 0 \<le> x / q"
      using assms q by simp
  qed
  have normal: "2 ^ 52 \<le> round_half_even (x / q) \<and> round_half_even (x / q) \<le> 2 ^ 53"
    if "2 powi (- 1022) \<le> x"
  proof -
    from binade_spec [OF assms] that have "2 powi ex \<le> x" "x < 2 powi (ex + 1)"
      by (simp_all add: ex_def)
    then have "2 ^ 52 * q \<le> x" "x \<le> 2 ^ 53 * q"
      unfolding E0 E1 by simp_all
    then have "of_int (2 ^ 52) \<le> x / q" "x / q \<le> of_int (2 ^ 53)"
      using q by (simp_all add: pos_le_divide_eq pos_divide_le_eq)
    then show ?thesis
      using round_half_even_ge [of "2 ^ 52" "x / q"] round_half_even_le [of "x / q" "2 ^ 53"]
      by simp
  qed
  have subnormal: "ex = - 1022 \<and> round_half_even (x / q) \<le> 2 ^ 52"
    if "x < 2 powi (- 1022)"
  proof -
    from binade_spec [OF assms] that have e: "ex = - 1022"
      by (simp add: ex_def)
    from that have "x \<le> 2 ^ 52 * q"
      using E0 unfolding e by simp
    then have "x / q \<le> of_int (2 ^ 52)"
      using q by (simp add: pos_divide_le_eq)
    with e show ?thesis
      using round_half_even_le [of "x / q" "2 ^ 52"] by simp
  qed
  have top: "round_half_even (x / q) \<le> 2 ^ 53"
  proof (cases "2 powi (- 1022) \<le> x")
    case True
    with normal show ?thesis
      by simp
  next
    case False
    with subnormal have "round_half_even (x / q) \<le> 2 ^ 52"
      by simp
    then show ?thesis
      by simp
  qed
  from nn top normal subnormal show ?thesis
    unfolding q_def ex_def by blast
qed

lemma round_double_nonneg: "0 \<le> x \<Longrightarrow> nonneg_num (round_double x)"
proof (cases "x = 0")
  case True
  then show ?thesis
    by (simp add: round_double_def)
next
  case False
  assume "0 \<le> x"
  with False have pos: "0 < x"
    by simp
  from mantissa_bounds [OF pos]
  have nn: "0 \<le> round_half_even (x / 2 powi (binade x - 52))"
    by simp
  from dec_of_binary_cases [of "round_half_even (x / 2 powi (binade x - 52))" "binade x - 52"] nn
  obtain m e where "dec_of_binary (round_half_even (x / 2 powi (binade x - 52))) (binade x - 52)
      = Dec m e" "0 \<le> m"
    by blast
  then show ?thesis
    by (simp add: round_double_pos [OF pos] pack_double_def)
qed

lemma round_double_canonical: "canonical_num (round_double x)"
proof -
  have "canonical_num (dec_of_binary n j)" for n j
    using dec_of_binary_cases [of n j] by auto
  then show ?thesis
    by (simp add: round_double_def round_in_binade_def pack_double_def canonical_def)
qed

lemma round_double_overflow:
  assumes "of_int DBL_OVERFLOW \<le> x"
  shows "round_double x = PosInf"
proof -
  have big: "(2::rat) ^ 1023 \<le> of_int DBL_OVERFLOW"
    by (simp add: DBL_OVERFLOW_def)
  with assms have x: "2 ^ 1023 \<le> x"
    by simp
  then have pos: "0 < x"
    by (simp add: less_le_trans [of 0 "2 ^ 1023" x])
  define ex where "ex = binade x"
  define n where "n = round_half_even (x / 2 powi (ex - 52))"
  have "(2::rat) powi (- 1022) \<le> 2 powi 1023"
    by (intro power_int_increasing) simp_all
  with x have "2 powi (- 1022) \<le> x"
    by simp
  with binade_spec [OF pos] have hi: "x < 2 powi (ex + 1)"
    by (simp add: ex_def)
  have ex: "1023 \<le> ex"
  proof (rule ccontr)
    assume "\<not> 1023 \<le> ex"
    then have "(2::rat) powi (ex + 1) \<le> 2 powi 1023"
      by (intro power_int_increasing) simp_all
    with hi x show False
      by simp
  qed
  have "1023 < ex \<or> (ex = 1023 \<and> n = 2 ^ 53)"
  proof (cases "ex = 1023")
    case False
    with ex show ?thesis
      by simp
  next
    case True
    have "of_int (2 ^ 53) - 1 / 2 \<le> x / 2 ^ 971"
      using assms by (simp add: DBL_OVERFLOW_def pos_le_divide_eq)
    then have "2 ^ 53 \<le> round_half_even (x / 2 ^ 971)"
      by (intro round_half_even_tie) simp_all
    moreover have "round_half_even (x / 2 ^ 971) \<le> 2 ^ 53"
      using mantissa_bounds [OF pos] True by (simp add: ex_def)
    ultimately show ?thesis
      using True by (simp add: n_def)
  qed
  then show ?thesis
    by (simp add: round_double_pos [OF pos] pack_double_def ex_def n_def)
qed

lemma round_double_fixed:
  assumes "0 < x" "round_double x = Dec m e"
  shows "round_double (of_int m * 10 powi e) = Dec m e"
proof -
  define ex where "ex = binade x"
  define q where "q = (2::rat) powi (ex - 52)"
  define n where "n = round_half_even (x / q)"
  have q: "0 < q"
    by (simp add: q_def)
  have E0: "(2::rat) powi ex = 2 ^ 52 * q"
    unfolding q_def by (rule powi_split) simp
  have E1: "(2::rat) powi (ex + 1) = 2 ^ 53 * q"
    unfolding q_def by (rule powi_split) simp
  have "(2::rat) powi (ex + 1 - 52) = 2 ^ 1 * q"
    unfolding q_def by (rule powi_split) simp
  then have E2: "(2::rat) powi (ex + 1 - 52) = 2 * q"
    by (simp only: power_one_right)
  then have E2': "(2::rat) powi (ex - 51) = 2 * q"
    by simp
  have E3: "(2::rat) powi (ex + 1 + 1) = 2 ^ 54 * q"
    unfolding q_def by (rule powi_split) simp
  have rd: "round_double x = pack_double False ex n"
    by (simp add: round_double_pos [OF assms(1)] ex_def n_def q_def)
  from assms(2) rd have nov: "\<not> (1023 < ex \<or> (ex = 1023 \<and> n = 2 ^ 53))"
    and d: "dec_of_binary n (ex - 52) = Dec m e"
    by (auto simp: pack_double_def split: if_splits)
  from dec_of_binary_cases [of n "ex - 52"] d
  have val: "(of_int m :: rat) * 10 powi e = of_int n * q"
    by (auto simp: q_def)
  from mantissa_bounds [OF assms(1)]
  have nn: "0 \<le> n" and top: "n \<le> 2 ^ 53"
    and normal: "2 powi (- 1022) \<le> x \<longrightarrow> 2 ^ 52 \<le> n"
    and subnormal: "x < 2 powi (- 1022) \<longrightarrow> ex = - 1022 \<and> n \<le> 2 ^ 52"
    unfolding n_def q_def ex_def by blast+
  from binade_spec [OF assms(1)] have low: "- 1022 \<le> ex"
    by (simp add: ex_def)
  have same: "round_double (of_int n * q) = Dec m e"
    if b: "binade (of_int n * q) = ex" and p: "0 < n"
  proof -
    have y: "0 < of_int n * q"
      using p q by simp
    have "of_int n * q / 2 powi (ex - 52) = of_int n"
      using q by (simp add: q_def)
    then show ?thesis
      using nov d by (simp add: round_double_pos [OF y] b round_half_even_int pack_double_def)
  qed
  have main: "round_double (of_int n * q) = Dec m e"
  proof (cases "n = 0")
    case True
    with d show ?thesis
      by (simp add: dec_of_binary_zero round_double_def)
  next
    case False
    with nn have p: "0 < n"
      by simp
    have y: "0 < of_int n * q"
      using p q by simp
    consider (a) "2 ^ 52 \<le> n" "n < 2 ^ 53" | (b) "n = 2 ^ 53" | (c) "n < 2 ^ 52"
      using top by linarith
    then show ?thesis
    proof cases
      case a
      have "(of_int (2 ^ 52) :: rat) \<le> of_int n" "(of_int n :: rat) < of_int (2 ^ 53)"
        using a by (simp_all only: of_int_le_iff of_int_less_iff)
      then have "2 ^ 52 * q \<le> of_int n * q" "of_int n * q < 2 ^ 53 * q"
        using q by simp_all
      then have "binade (of_int n * q) = ex"
        unfolding E0 [symmetric] E1 [symmetric] by (intro binade_eq [OF y low])
      from same [OF this p] show ?thesis .
    next
      case b
      have yv: "of_int n * q = 2 powi (ex + 1)"
        unfolding E1 b by simp
      have "(2::rat) powi (ex + 1) < 2 powi (ex + 1 + 1)"
        by (intro power_int_strict_increasing) simp_all
      then have bin: "binade (of_int n * q) = ex + 1"
        unfolding yv using low by (intro binade_eq) simp_all
      have "of_int n * q / 2 powi (ex + 1 - 52) = of_int (2 ^ 52)"
        unfolding E2 b using q by simp
      then have r: "round_half_even (of_int n * q / 2 powi (ex + 1 - 52)) = 2 ^ 52"
        by (simp only: round_half_even_int)
      from nov b have small: "ex + 1 \<le> 1023"
        by simp
      have deq: "dec_of_binary (2 ^ 52) (ex + 1 - 52) = dec_of_binary n (ex - 52)"
        by (rule dec_of_binary_eq) (simp add: E2' b q_def [symmetric])
      have pk: "pack_double False (ex + 1) (2 ^ 52) = dec_of_binary (2 ^ 52) (ex + 1 - 52)"
        using small by (simp add: pack_double_def)
      have "round_double (of_int n * q) = pack_double False (ex + 1) (2 ^ 52)"
        by (simp only: round_double_pos [OF y] bin r)
      then show ?thesis
        by (simp only: pk deq d)
    next
      case c
      have "\<not> 2 powi (- 1022) \<le> x"
        using normal c by auto
      with subnormal have e: "ex = - 1022"
        by simp
      have "(of_int n :: rat) < of_int (2 ^ 52)"
        using c by (simp only: of_int_less_iff)
      then have "of_int n * q < 2 ^ 52 * q"
        using q by simp
      then have "of_int n * q < 2 powi (- 1022)"
        unfolding E0 [symmetric] e .
      from binade_subnormal [OF y this] have "binade (of_int n * q) = ex"
        by (simp add: e)
      from same [OF this p] show ?thesis .
    qed
  qed
  then show ?thesis
    by (simp only: val)
qed

subsubsection \<open>Digits\<close>

lemma digits_val_append:
  "digits_val (a @ b) = digits_val a * 10 ^ length b + digits_val b"
proof -
  define f :: "nat \<Rightarrow> nat \<Rightarrow> nat" where "f = (\<lambda>a c. 10 * a + (c - 48))"
  have step: "foldl f x b = x * 10 ^ length b + foldl f 0 b" for x b
  proof (induction b arbitrary: x)
    case Nil
    show ?case by simp
  next
    case (Cons c b)
    have "foldl f x (c # b) = foldl f (f x c) b"
      by simp
    also have "\<dots> = f x c * 10 ^ length b + foldl f 0 b"
      by (rule Cons.IH)
    also have "f x c = 10 * x + f 0 c"
      by (simp add: f_def)
    also have "(10 * x + f 0 c) * 10 ^ length b + foldl f 0 b
        = x * 10 ^ length (c # b) + (f 0 c * 10 ^ length b + foldl f 0 b)"
      by (simp add: algebra_simps)
    also have "f 0 c * 10 ^ length b + foldl f 0 b = foldl f (f 0 c) b"
      by (rule Cons.IH [symmetric])
    also have "\<dots> = foldl f 0 (c # b)"
      by simp
    finally show ?case .
  qed
  have "digits_val (a @ b) = foldl f (foldl f 0 a) b"
    by (simp add: digits_val_def f_def)
  also have "\<dots> = foldl f 0 a * 10 ^ length b + foldl f 0 b"
    by (rule step)
  finally show ?thesis
    by (simp add: digits_val_def f_def)
qed

lemma digits_val_zeros: "digits_val (replicate j 48) = 0"
  by (induction j) (simp_all add: digits_val_def)

lemma digits_val_single: "digits_val [c] = c - 48"
  by (simp add: digits_val_def)

lemma digits_of_all_digits: "all_digits (digits_of n)"
proof (induction n rule: digits_of.induct)
  case (1 n)
  show ?case
  proof (cases "n < 10")
    case True
    then show ?thesis
      by (subst digits_of.simps) (simp add: all_digits_def is_digit_def)
  next
    case False
    have "n mod 10 < 10" by simp
    then have "is_digit (48 + n mod 10)"
      unfolding is_digit_def by linarith
    with False "1.IH" show ?thesis
      by (subst digits_of.simps) (simp add: all_digits_def)
  qed
qed

lemma digits_of_nonempty: "digits_of n \<noteq> []"
  by (subst digits_of.simps) simp

lemma digits_val_digits_of: "digits_val (digits_of n) = n"
proof (induction n rule: digits_of.induct)
  case (1 n)
  show ?case
  proof (cases "n < 10")
    case True
    then show ?thesis
      by (subst digits_of.simps) (simp add: digits_val_single)
  next
    case False
    with "1.IH" show ?thesis
      by (subst digits_of.simps) (simp add: digits_val_append digits_val_single)
  qed
qed

lemma digits_of_length_bounds:
  "0 < n \<Longrightarrow> 10 ^ (length (digits_of n) - 1) \<le> n \<and> n < 10 ^ length (digits_of n)"
proof (induction n rule: digits_of.induct)
  case (1 n)
  show ?case
  proof (cases "n < 10")
    case True
    with "1.prems" show ?thesis
      by (subst (1 2) digits_of.simps) simp
  next
    case False
    then have pos: "0 < n div 10" by simp
    from "1.IH" [OF False pos]
    have lo: "10 ^ (length (digits_of (n div 10)) - 1) \<le> n div 10"
      and hi: "n div 10 < 10 ^ length (digits_of (n div 10))" by simp_all
    have len: "length (digits_of n) = Suc (length (digits_of (n div 10)))"
      using False by (subst digits_of.simps) simp
    have ne: "length (digits_of (n div 10)) \<noteq> 0"
      using digits_of_nonempty by simp
    from lo have "10 * 10 ^ (length (digits_of (n div 10)) - 1) \<le> 10 * (n div 10)"
      by simp
    also have "10 * (n div 10) \<le> n" by simp
    finally have a: "10 ^ (length (digits_of n) - 1) \<le> n"
      using ne by (simp add: len power_Suc [symmetric] del: power_Suc)
    from hi have "Suc (n div 10) \<le> 10 ^ length (digits_of (n div 10))" by simp
    then have "10 * Suc (n div 10) \<le> 10 * 10 ^ length (digits_of (n div 10))"
      by (simp only: mult_le_mono2)
    moreover have "n < 10 * Suc (n div 10)"
      by (simp add: less_mult_imp_div_less mult.commute)
    ultimately have b: "n < 10 ^ length (digits_of n)"
      by (simp add: len)
    from a b show ?thesis by simp
  qed
qed

subsubsection \<open>The number pattern\<close>

lemma match_number_no_digit: "no_digit s \<Longrightarrow> match_number s = None"
  by (induction s) (simp_all add: no_digit_def)

lemma match_number_skip:
  "no_digit pre \<Longrightarrow>
     match_number (pre @ t) = map_option (\<lambda>(i, m). (length pre + i, m)) (match_number t)"
proof (induction pre)
  case Nil
  show ?case
    by (simp add: option.map_ident case_prod_beta)
next
  case (Cons c pre)
  then have "no_digit pre" and "\<not> is_digit c"
    by (simp_all add: no_digit_def)
  with Cons.IH show ?case
    by (simp add: option.map_comp comp_def case_prod_beta)
qed

lemma takeWhile_digits:
  "all_digits ip \<Longrightarrow> run_stops rest \<Longrightarrow> takeWhile is_digit (ip @ rest) = ip"
  by (cases rest) (simp_all add: all_digits_def run_stops_def takeWhile_append2 list_all_iff)

lemma dropWhile_digits:
  "all_digits ip \<Longrightarrow> run_stops rest \<Longrightarrow> dropWhile is_digit (ip @ rest) = rest"
  by (cases rest) (simp_all add: all_digits_def run_stops_def dropWhile_append2 list_all_iff)

lemma match_number_integer:
  assumes "all_digits ip" "ip \<noteq> []" "run_stops rest" "no_fraction rest"
  shows "match_number (ip @ rest) = Some (0, ip)"
proof -
  from assms(2) obtain c cs where ip: "ip = c # cs"
    by (cases ip) auto
  with assms(1) have c: "is_digit c"
    by (simp add: all_digits_def)
  have t: "takeWhile is_digit (c # cs @ rest) = ip"
    using takeWhile_digits [OF assms(1,3)] by (simp add: ip)
  have d: "dropWhile is_digit (c # cs @ rest) = rest"
    using dropWhile_digits [OF assms(1,3)] by (simp add: ip)
  have "match_number (c # cs @ rest) = Some (0, ip)"
    using assms(4) c
    by (simp only: match_number.simps if_True Let_def t d)
       (auto simp: no_fraction_def split: list.splits)
  then show ?thesis
    by (simp add: ip)
qed

lemma match_number_fraction:
  assumes "all_digits ip" "ip \<noteq> []" "all_digits fp" "fp \<noteq> []" "run_stops rest"
  shows "match_number (ip @ 46 # fp @ rest) = Some (0, ip @ 46 # fp)"
proof -
  from assms(2) obtain c cs where ip: "ip = c # cs"
    by (cases ip) auto
  from assms(4) obtain f fs where fp: "fp = f # fs"
    by (cases fp) auto
  from assms(1) ip have c: "is_digit c"
    by (simp add: all_digits_def)
  from assms(3) fp have f: "is_digit f"
    by (simp add: all_digits_def)
  have dot: "run_stops (46 # fp @ rest)"
    by (simp add: run_stops_def is_digit_def)
  have t: "takeWhile is_digit (c # cs @ 46 # fp @ rest) = ip"
    using takeWhile_digits [OF assms(1) dot] by (simp add: ip)
  have d: "dropWhile is_digit (c # cs @ 46 # fp @ rest) = 46 # f # fs @ rest"
    using dropWhile_digits [OF assms(1) dot] by (simp add: ip fp)
  have t2: "f # takeWhile is_digit (fs @ rest) = fp"
    using takeWhile_digits [OF assms(3,5)] f by (simp add: fp)
  have "match_number (c # cs @ 46 # fp @ rest) = Some (0, ip @ 46 # fp)"
    using c f by (simp only: match_number.simps if_True Let_def t d) (simp add: t2)
  then show ?thesis
    by (simp add: ip)
qed

subsubsection \<open>parseFloat on a matched run\<close>

lemma parseFloat_integer:
  assumes "all_digits ip" "ip \<noteq> []"
  shows "parseFloat ip = mk_number (int (digits_val ip)) 0"
proof -
  have t: "takeWhile is_digit ip = ip" and d: "dropWhile is_digit ip = []"
    using assms(1) by (simp_all add: all_digits_def list_all_iff)
  show ?thesis
    unfolding parseFloat_def Let_def t d using assms(2) by simp
qed

lemma parseFloat_fraction:
  assumes "all_digits ip" "ip \<noteq> []" "all_digits fp"
  shows "parseFloat (ip @ 46 # fp) = mk_number (int (digits_val (ip @ fp))) (- int (length fp))"
proof -
  have dot: "run_stops (46 # fp)"
    by (simp add: run_stops_def is_digit_def)
  have t: "takeWhile is_digit (ip @ 46 # fp) = ip"
    by (rule takeWhile_digits [OF assms(1) dot])
  have d: "dropWhile is_digit (ip @ 46 # fp) = 46 # fp"
    by (rule dropWhile_digits [OF assms(1) dot])
  have t2: "takeWhile is_digit fp = fp"
    using assms(3) by (simp add: all_digits_def list_all_iff)
  show ?thesis
    unfolding parseFloat_def Let_def t d using assms(2) by (simp add: t2)
qed

subsubsection \<open>Trimming and stripping\<close>

lemma strip_currency_filter: "strip_currency s = filter (\<lambda>c. \<not> strippable c) s"
  by (simp add: strip_currency_def strippable_def conj_commute conj_left_commute)

lemma space_strippable: "is_space c \<Longrightarrow> strippable c"
  by (simp add: strippable_def strip_class_def)

lemma digit_not_strippable: "is_digit c \<Longrightarrow> \<not> strippable c"
  by (auto simp: strippable_def strip_class_def is_digit_def is_space_def RUPEE_def)

lemma filter_dropWhile:
  "(\<And>c. Q c \<Longrightarrow> \<not> P c) \<Longrightarrow> filter P (dropWhile Q s) = filter P s"
  by (induction s) auto

lemma strip_currency_trim: "strip_currency (trim s) = strip_currency s"
proof -
  have "filter (\<lambda>c. \<not> strippable c) (rev (dropWhile is_space (rev (dropWhile is_space s))))
      = rev (filter (\<lambda>c. \<not> strippable c) (dropWhile is_space (rev (dropWhile is_space s))))"
    by (simp add: rev_filter)
  also have "\<dots> = rev (filter (\<lambda>c. \<not> strippable c) (rev (dropWhile is_space s)))"
    by (simp add: filter_dropWhile space_strippable)
  also have "\<dots> = filter (\<lambda>c. \<not> strippable c) (dropWhile is_space s)"
    by (simp add: rev_filter)
  also have "\<dots> = filter (\<lambda>c. \<not> strippable c) s"
    by (simp add: filter_dropWhile space_strippable)
  finally show ?thesis
    by (simp add: strip_currency_filter trim_def)
qed

lemma strip_currency_idem: "strip_currency (strip_currency s) = strip_currency s"
  by (simp add: strip_currency_filter)

lemma no_digit_strip: "no_digit s \<Longrightarrow> no_digit (strip_currency s)"
  by (simp add: strip_currency_filter no_digit_def list_all_iff)

lemma sentinel_no_digit: "s \<in> set SENTINELS \<Longrightarrow> no_digit s"
  by (auto simp: SENTINELS_def no_digit_def ascii_def is_digit_def)

lemma parseIndianNumber_stripped:
  "parseIndianNumber (JStr s) = parse_stripped (strip_currency s)"
proof (cases "trim s = [] \<or> trim s \<in> set SENTINELS")
  case True
  then have "no_digit (trim s)"
    using sentinel_no_digit [of "trim s"] by (cases "trim s = []") (simp_all add: no_digit_def)
  then have "no_digit (strip_currency (trim s))"
    by (rule no_digit_strip)
  then have "match_number (strip_currency s) = None"
    by (simp add: strip_currency_trim match_number_no_digit)
  with True show ?thesis
    by (simp add: parseIndianNumber_def parse_stripped_def)
next
  case False
  then show ?thesis
    by (simp add: parseIndianNumber_def parse_stripped_def strip_currency_trim
        finite_or_zero_def Let_def split: option.splits)
qed

lemma parse_stripped_no_digit: "no_digit t \<Longrightarrow> parse_stripped t = Dec 0 0"
  by (simp add: parse_stripped_def match_number_no_digit)

lemma parse_stripped_integer:
  assumes "no_digit pre" "all_digits ip" "ip \<noteq> []" "run_stops rest" "no_fraction rest"
  shows "parse_stripped (pre @ ip @ rest)
           = finite_or_zero (apply_unit (toLowerCase rest) (parseFloat ip))"
  by (simp add: parse_stripped_def match_number_skip [OF assms(1)]
      match_number_integer [OF assms(2-5)])

lemma parse_stripped_fraction:
  assumes "no_digit pre" "all_digits ip" "ip \<noteq> []" "all_digits fp" "fp \<noteq> []" "run_stops rest"
  shows "parse_stripped (pre @ ip @ 46 # fp @ rest)
           = finite_or_zero (apply_unit (toLowerCase rest) (parseFloat (ip @ 46 # fp)))"
  by (simp add: parse_stripped_def match_number_skip [OF assms(1)]
      match_number_fraction [OF assms(2-6)])

subsubsection \<open>Sign and finiteness\<close>

lemma mk_number_nonneg: "0 \<le> m \<Longrightarrow> nonneg_num (mk_number m e)"
  by (simp add: mk_number_def round_double_nonneg)

lemma parseFloat_nonneg: "nonneg_num (parseFloat s)"
  by (simp add: parseFloat_def Let_def mk_number_nonneg)

lemma num_lit_nonneg: "nonneg_num (num_lit n)"
  by (simp add: num_lit_def mk_number_nonneg)

lemma fmul_nonneg: "nonneg_num x \<Longrightarrow> nonneg_num y \<Longrightarrow> nonneg_num (fmul x y)"
  by (cases x; cases y) (simp_all add: mk_number_nonneg sgn_if)

lemma apply_unit_nonneg: "nonneg_num x \<Longrightarrow> nonneg_num (apply_unit sfx x)"
  by (simp add: apply_unit_def fmul_nonneg num_lit_nonneg)

lemma finite_or_zero_cases:
  "nonneg_num x \<Longrightarrow> \<exists>m e. finite_or_zero x = Dec m e \<and> 0 \<le> m"
  by (cases x) (simp_all add: finite_or_zero_def)

lemma parse_stripped_finite_nonneg: "\<exists>m e. parse_stripped t = Dec m e \<and> 0 \<le> m"
proof (cases "match_number t")
  case None
  then show ?thesis
    by (simp add: parse_stripped_def)
next
  case (Some p)
  obtain i m0 where p: "p = (i, m0)"
    by (cases p)
  from finite_or_zero_cases [OF apply_unit_nonneg [OF parseFloat_nonneg]]
  show ?thesis
    by (simp add: parse_stripped_def Some p)
qed

lemma parseIndianNumber_finite_nonneg: "\<exists>m e. parseIndianNumber v = Dec m e \<and> 0 \<le> m"
proof (cases "v = JNull \<or> v = JUndefined")
  case True
  then show ?thesis
    by (auto simp: parseIndianNumber_def)
next
  case False
  then have "parseIndianNumber v = parseIndianNumber (JStr (String_of v))"
    by (simp add: parseIndianNumber_def)
  then show ?thesis
    using parse_stripped_finite_nonneg [of "strip_currency (String_of v)"]
    by (simp add: parseIndianNumber_stripped)
qed

subsubsection \<open>Canonical results\<close>

lemma mk_number_canonical: "canonical_num (mk_number m e)"
  by (simp add: mk_number_def round_double_canonical)

lemma fmul_canonical: "canonical_num (fmul x y)"
  by (cases x; cases y) (simp_all add: mk_number_canonical)

lemma parseFloat_canonical: "canonical_num (parseFloat s)"
  by (simp add: parseFloat_def Let_def mk_number_canonical)

lemma apply_unit_canonical: "canonical_num x \<Longrightarrow> canonical_num (apply_unit sfx x)"
  by (simp add: apply_unit_def fmul_canonical)

lemma finite_or_zero_canonical: "canonical_num x \<Longrightarrow> canonical_num (finite_or_zero x)"
  by (simp add: finite_or_zero_def canonical_def)

lemma parse_stripped_canonical: "canonical_num (parse_stripped t)"
proof (cases "match_number t")
  case None
  then show ?thesis
    by (simp add: parse_stripped_def canonical_def)
next
  case (Some p)
  obtain i m0 where p: "p = (i, m0)"
    by (cases p)
  from finite_or_zero_canonical [OF apply_unit_canonical [OF parseFloat_canonical]]
  show ?thesis
    by (simp add: parse_stripped_def Some p)
qed

lemma parseIndianNumber_canonical: "canonical_num (parseIndianNumber v)"
proof (cases "v = JNull \<or> v = JUndefined")
  case True
  then show ?thesis
    by (auto simp: parseIndianNumber_def canonical_def)
next
  case False
  then have "parseIndianNumber v = parseIndianNumber (JStr (String_of v))"
    by (simp add: parseIndianNumber_def)
  then show ?thesis
    by (simp add: parseIndianNumber_stripped parse_stripped_canonical)
qed

subsubsection \<open>Units\<close>

lemma num_lit_crore: "num_lit 10000000 = Dec 1 7"
  by (simp add: num_lit_def num_eval)

lemma num_lit_lakh: "num_lit 100000 = Dec 1 5"
  by (simp add: num_lit_def num_eval)

lemma str_includes_prefix: "str_includes t (w @ x) \<Longrightarrow> str_includes t w"
proof (induction t)
  case Nil
  then show ?case
    by simp
next
  case (Cons c cs)
  show ?case
  proof (cases "take (length (w @ x)) (c # cs) = w @ x")
    case True
    have "take (length w) (c # cs) = take (length w) (take (length (w @ x)) (c # cs))"
      by (simp add: min_def)
    also have "\<dots> = w"
      unfolding True by simp
    finally show ?thesis
      by simp
  next
    case False
    with Cons.prems have "str_includes cs (w @ x)"
      by simp
    from Cons.IH [OF this] show ?thesis
      by simp
  qed
qed

lemma crore_test: "regex_test_words CRORE_WORDS t \<longleftrightarrow> str_includes t (ascii ''cr'')"
proof -
  have "str_includes t (ascii ''cr'' @ ascii ''ore'') \<Longrightarrow> str_includes t (ascii ''cr'')"
    and "str_includes t (ascii ''cr'' @ ascii ''ores'') \<Longrightarrow> str_includes t (ascii ''cr'')"
    by (rule str_includes_prefix, assumption)+
  then show ?thesis
    by (auto simp: regex_test_words_def CRORE_WORDS_def ascii_def)
qed

lemma lakh_test:
  "regex_test_words LAKH_WORDS t \<longleftrightarrow>
     str_includes t (ascii ''lac'') \<or> str_includes t (ascii ''lakh'')"
proof -
  have "str_includes t (ascii ''lakh'' @ ascii ''s'') \<Longrightarrow> str_includes t (ascii ''lakh'')"
    by (rule str_includes_prefix)
  then show ?thesis
    by (auto simp: regex_test_words_def LAKH_WORDS_def ascii_def)
qed

lemma apply_unit_cases:
  "apply_unit t x =
     (if str_includes t (ascii ''cr'') then fmul x (Dec 1 7)
      else if str_includes t (ascii ''lac'') \<or> str_includes t (ascii ''lakh'')
      then fmul x (Dec 1 5)
      else x)"
  by (simp add: apply_unit_def crore_test lakh_test num_lit_crore num_lit_lakh)

lemma apply_unit_empty: "apply_unit [] x = x"
  by (simp add: apply_unit_cases ascii_def)

subsubsection \<open>The shape of the stripped text\<close>

lemma parseIndianNumber_run:
  assumes "strip_currency s = pre @ ip @ (if fp = [] then [] else 46 # fp) @ rest"
    and "no_digit pre" "all_digits ip" "ip \<noteq> []" "all_digits fp" "run_stops rest"
    and "fp = [] \<longrightarrow> no_fraction rest"
  shows "parseIndianNumber (JStr s) =
           finite_or_zero (apply_unit (toLowerCase rest)
             (mk_number (int (digits_val (ip @ fp))) (- int (length fp))))"
proof (cases "fp = []")
  case True
  with assms(1) have s: "strip_currency s = pre @ ip @ rest"
    by simp
  from True assms(7) have nf: "no_fraction rest"
    by simp
  show ?thesis
    unfolding parseIndianNumber_stripped s
    by (simp add: parse_stripped_integer [OF assms(2,3,4,6) nf]
        parseFloat_integer [OF assms(3,4)] True)
next
  case False
  with assms(1) have s: "strip_currency s = pre @ ip @ 46 # fp @ rest"
    by simp
  show ?thesis
    unfolding parseIndianNumber_stripped s
    by (simp add: parse_stripped_fraction [OF assms(2,3,4,5) False assms(6)]
        parseFloat_fraction [OF assms(3,4,5)])
qed

lemma parseIndianNumber_zero:
  "trim s = [] \<or> trim s \<in> set SENTINELS \<or> no_digit s \<Longrightarrow> parseIndianNumber (JStr s) = Dec 0 0"
proof -
  assume a: "trim s = [] \<or> trim s \<in> set SENTINELS \<or> no_digit s"
  have "no_digit (strip_currency s)"
  proof (cases "no_digit s")
    case True
    then show ?thesis
      by (rule no_digit_strip)
  next
    case False
    with a have "no_digit (trim s)"
      using sentinel_no_digit [of "trim s"] by (cases "trim s = []") (simp_all add: no_digit_def)
    then have "no_digit (strip_currency (trim s))"
      by (rule no_digit_strip)
    then show ?thesis
      by (simp add: strip_currency_trim)
  qed
  then show ?thesis
    by (simp add: parseIndianNumber_stripped parse_stripped_no_digit)
qed

lemma parseIndianNumber_strips:
  "parseIndianNumber (JStr s) = parseIndianNumber (JStr (strip_currency s))"
  by (simp add: parseIndianNumber_stripped strip_currency_idem)


lemma run_stops_dropWhile: "run_stops (dropWhile is_digit xs)"
  by (induction xs) (simp_all add: run_stops_def)

lemma first_run_exists:
  assumes "\<not> no_digit t"
  shows "\<exists>pre ip fp rest. first_run t pre ip fp rest"
proof -
  define pre where "pre = takeWhile (\<lambda>c. \<not> is_digit c) t"
  define u where "u = dropWhile (\<lambda>c. \<not> is_digit c) t"
  define ip where "ip = takeWhile is_digit u"
  define r where "r = dropWhile is_digit u"
  have t: "t = pre @ u"
    by (simp add: pre_def u_def)
  have pre: "no_digit pre"
    by (auto simp: no_digit_def pre_def list_all_iff dest: set_takeWhileD)
  from assms have "\<exists>c\<in>set t. is_digit c"
    by (auto simp: no_digit_def list_all_iff)
  then have une: "u \<noteq> []"
    by (auto simp: u_def dropWhile_eq_Nil_conv)
  then have "is_digit (hd u)"
    using hd_dropWhile [of "\<lambda>c. \<not> is_digit c" t] by (simp add: u_def)
  with une have ipne: "ip \<noteq> []"
    by (cases u) (simp_all add: ip_def)
  have ip: "all_digits ip"
    by (auto simp: all_digits_def ip_def list_all_iff dest: set_takeWhileD)
  have u: "u = ip @ r"
    by (simp add: ip_def r_def)
  have stops: "run_stops r"
    unfolding r_def by (rule run_stops_dropWhile)
  show ?thesis
  proof (cases "\<exists>f r'. r = 46 # f # r' \<and> is_digit f")
    case True
    then obtain f r' where r: "r = 46 # f # r'" and f: "is_digit f"
      by blast
    define fp where "fp = takeWhile is_digit (f # r')"
    define rest where "rest = dropWhile is_digit (f # r')"
    have fpne: "fp \<noteq> []"
      using f by (simp add: fp_def)
    have fp: "all_digits fp"
      by (auto simp: all_digits_def fp_def list_all_iff dest: set_takeWhileD)
    have "f # r' = fp @ rest"
      by (simp add: fp_def rest_def)
    with r have r2: "r = 46 # fp @ rest"
      by simp
    have "run_stops rest"
      unfolding rest_def by (rule run_stops_dropWhile)
    with t u r2 pre ip ipne fp fpne have "first_run t pre ip fp rest"
      by (simp add: first_run_def)
    then show ?thesis
      by blast
  next
    case False
    then have "no_fraction r"
      by (auto simp: no_fraction_def split: list.splits)
    with t u pre ip ipne stops have "first_run t pre ip [] r"
      by (simp add: first_run_def all_digits_def)
    then show ?thesis
      by blast
  qed
qed

lemma digit_survives: "\<not> no_digit s \<Longrightarrow> \<not> no_digit (strip_currency s)"
  by (auto simp: no_digit_def list_all_iff strip_currency_filter digit_not_strippable)

subsubsection \<open>Values\<close>

lemma mk_number_run: "mk_number (int (digits_val (ip @ fp))) (- int (length fp)) = round_double (run_value ip fp)"
proof -
  have "(of_int (int (digits_val (ip @ fp))) :: rat) * 10 powi (- int (length fp))
      = of_nat (digits_val (ip @ fp)) / 10 ^ length fp"
    by (simp add: power_int_minus field_simps)
  then show ?thesis
    by (simp only: mk_number_def run_value_def)
qed

lemma parseIndianNumber_first_run:
  assumes "first_run (strip_currency s) pre ip fp rest"
  shows "parseIndianNumber (JStr s) =
           finite_or_zero
             (if str_includes (toLowerCase rest) (ascii ''cr'')
              then fmul (round_double (run_value ip fp)) (num_lit 10000000)
              else if str_includes (toLowerCase rest) (ascii ''lac'') \<or>
                      str_includes (toLowerCase rest) (ascii ''lakh'')
              then fmul (round_double (run_value ip fp)) (num_lit 100000)
              else round_double (run_value ip fp))"
proof -
  from assms have sh: "strip_currency s = pre @ ip @ (if fp = [] then [] else 46 # fp) @ rest"
    "no_digit pre" "all_digits ip" "ip \<noteq> []" "all_digits fp" "run_stops rest"
    "fp = [] \<longrightarrow> no_fraction rest"
    unfolding first_run_def by blast+
  have "parseIndianNumber (JStr s) =
      finite_or_zero (apply_unit (toLowerCase rest)
        (mk_number (int (digits_val (ip @ fp))) (- int (length fp))))"
    by (rule parseIndianNumber_run [OF sh])
  then show ?thesis
    by (simp only: mk_number_run apply_unit_cases num_lit_crore num_lit_lakh)
qed

lemma fmul_exact:
  assumes "exact_double v" "exact_double (v * 10 ^ j)"
  shows "num_value (finite_or_zero (fmul (round_double v) (Dec 1 (int j)))) = v * 10 ^ j"
proof -
  from assms(1) obtain a ea where r: "round_double v = Dec a ea"
    and v: "(of_int a :: rat) * 10 powi ea = v"
    by (cases "round_double v") (auto simp: exact_double_def)
  have "(of_int (a * 1) :: rat) * 10 powi (ea + int j) = of_int a * 10 powi ea * 10 ^ j"
    by (simp add: power_int_add)
  then have "fmul (round_double v) (Dec 1 (int j)) = round_double (v * 10 ^ j)"
    unfolding r fmul.simps mk_number_def v by (simp only:)
  with assms(2) show ?thesis
    by (simp add: exact_double_def finite_or_zero_def)
qed

lemma parseIndianNumber_exact:
  assumes "first_run (strip_currency s) pre ip fp rest" "exact_double (run_value ip fp)"
  shows "str_includes (toLowerCase rest) (ascii ''cr'') \<Longrightarrow>
           exact_double (run_value ip fp * 10 ^ 7) \<Longrightarrow>
           num_value (parseIndianNumber (JStr s)) = run_value ip fp * 10 ^ 7"
    and "\<not> str_includes (toLowerCase rest) (ascii ''cr'') \<Longrightarrow>
           str_includes (toLowerCase rest) (ascii ''lac'') \<or>
           str_includes (toLowerCase rest) (ascii ''lakh'') \<Longrightarrow>
           exact_double (run_value ip fp * 10 ^ 5) \<Longrightarrow>
           num_value (parseIndianNumber (JStr s)) = run_value ip fp * 10 ^ 5"
    and "\<not> str_includes (toLowerCase rest) (ascii ''cr'') \<Longrightarrow>
           \<not> str_includes (toLowerCase rest) (ascii ''lac'') \<Longrightarrow>
           \<not> str_includes (toLowerCase rest) (ascii ''lakh'') \<Longrightarrow>
           num_value (parseIndianNumber (JStr s)) = run_value ip fp"
proof -
  note run = parseIndianNumber_first_run [OF assms(1)]
  show "num_value (parseIndianNumber (JStr s)) = run_value ip fp * 10 ^ 7"
    if "str_includes (toLowerCase rest) (ascii ''cr'')" "exact_double (run_value ip fp * 10 ^ 7)"
    using fmul_exact [OF assms(2) that(2)] that(1) by (simp add: run num_lit_crore)
  show "num_value (parseIndianNumber (JStr s)) = run_value ip fp * 10 ^ 5"
    if "\<not> str_includes (toLowerCase rest) (ascii ''cr'')"
      "str_includes (toLowerCase rest) (ascii ''lac'') \<or>
       str_includes (toLowerCase rest) (ascii ''lakh'')"
      "exact_double (run_value ip fp * 10 ^ 5)"
    using fmul_exact [OF assms(2) that(3)] that(1,2) by (simp add: run num_lit_lakh)
  show "num_value (parseIndianNumber (JStr s)) = run_value ip fp"
    if "\<not> str_includes (toLowerCase rest) (ascii ''cr'')"
      "\<not> str_includes (toLowerCase rest) (ascii ''lac'')"
      "\<not> str_includes (toLowerCase rest) (ascii ''lakh'')"
    using assms(2) that by (simp add: run exact_double_def finite_or_zero_def)
qed

subsubsection \<open>Examples\<close>

lemmas text_defs = ascii_def trim_def is_space_def strip_currency_def strip_class_def RUPEE_def
  is_digit_def parseFloat_def digits_val_def toLowerCase_def lower_unit_def
  apply_unit_def regex_test_words_def CRORE_WORDS_def LAKH_WORDS_def SENTINELS_def
  parseIndianNumber_def

lemmas print_defs = shortest_toString_def shortest_decimal_def pos_toString_def digits_of.simps
  num_eval ascii_def replicate_numeral

lemma parseIndianNumber_examples:
  "parseIndianNumber (JStr (RUPEE # ascii ''1,23,456'')) = num_lit 123456"
  "parseIndianNumber (JStr (ascii ''2.5 Cr'')) = num_lit 25000000"
  "parseIndianNumber (JStr (ascii ''1 lakh'')) = num_lit 100000"
  "parseIndianNumber (JStr (ascii ''--'')) = num_lit 0"
     apply (simp_all add: text_defs)
    apply (simp_all add: num_lit_def num_eval)
  done

lemma parseIndianNumber_rest_examples:
  "parseIndianNumber (JStr (ascii ''500/-'')) = num_lit 500"
  "parseIndianNumber (JStr (ascii ''2.5 Cr.'')) = num_lit 25000000"
  "parseIndianNumber (JStr (ascii ''12 lakh 34'')) = num_lit 1200000"
    apply (simp_all add: text_defs)
    apply (simp_all add: num_lit_def num_eval)
  done

lemma parseIndianNumber_rounded_example:
  "parseIndianNumber (JStr (ascii ''0.07 lakh''))
     = Dec 70000000000000009094947017729282379150390625 (- 40)"
  by (simp add: text_defs) (simp add: num_lit_def num_eval)

lemma toString_rounded_example:
  "Number_toString (Dec 70000000000000009094947017729282379150390625 (- 40))
     = ascii ''7000.000000000001''"
proof -
  have n: "norm_dec 70000000000000009094947017729282379150390625 (- 40)
      = (70000000000000009094947017729282379150390625, - 40)"
    by (simp add: norm_dec.simps)
  have s: "shortest_decimal 70000000000000009094947017729282379150390625 (- 40)
      = (7000000000000001, - 12)"
    by (simp add: shortest_decimal_def digits_of.simps num_eval)
  have p: "pos_toString 7000000000000001 (- 12) = ascii ''7000.000000000001''"
    by (simp add: pos_toString_def digits_of.simps ascii_def)
  show ?thesis
    by (simp add: n s p shortest_toString_def)
qed

text \<open>
  C4. The currency normalizer ignores the rupee sign, white space and commas: it gives the
  same number on the text with them removed. Such a text, when it holds a digit, is a part
  without digits, then the first run of digits with an optional fraction, then a rest that
  does not continue the run. The result is the double nearest to the decimal value of the
  run, multiplied by 10,000,000 when the rest, in lower case, contains "cr" (as it does
  when cr, crore or crores follows the number), by 100,000 when it contains no "cr" but
  "lac" or "lakh" (lac, lakh or lakhs follows), and left as it is otherwise; the product
  is the product of doubles, the exact product rounded to the nearest double, and 0
  replaces an infinite result. Where the value of the run and its product are doubles, as
  for "2.5 Cr", the result is exactly the product. The normalizer gives 0 for null and
  undefined, for a text that trims to the empty text, to a dash, a double dash, "N/A",
  "null" or "undefined", and for a text with no digit. It returns a finite number for
  every input. The four examples of the specification hold; "500/-", "2.5 Cr." and
  "12 lakh 34" give 500, 25000000 and 1200000, and "0.07 lakh" gives the double that is
  written 7000.000000000001.
\<close>

theorem currency_normalizer_correct:
  "parseIndianNumber (JStr s) =
     parseIndianNumber (JStr (filter (\<lambda>c. \<not> (c = RUPEE \<or> strip_class c \<or> c = 44)) s)) \<and>
   (\<not> no_digit s \<longrightarrow>
      (\<exists>pre ip fp rest.
         first_run (filter (\<lambda>c. \<not> (c = RUPEE \<or> strip_class c \<or> c = 44)) s) pre ip fp rest)) \<and>
   (first_run (filter (\<lambda>c. \<not> (c = RUPEE \<or> strip_class c \<or> c = 44)) s) pre ip fp rest \<longrightarrow>
      parseIndianNumber (JStr s) =
        finite_or_zero
          (if str_includes (toLowerCase rest) (ascii ''cr'')
           then fmul (round_double (run_value ip fp)) (num_lit 10000000)
           else if str_includes (toLowerCase rest) (ascii ''lac'') \<or>
                   str_includes (toLowerCase rest) (ascii ''lakh'')
           then fmul (round_double (run_value ip fp)) (num_lit 100000)
           else round_double (run_value ip fp)) \<and>
      (exact_double (run_value ip fp) \<longrightarrow>
         (str_includes (toLowerCase rest) (ascii ''cr'') \<and>
          exact_double (run_value ip fp * 10 ^ 7) \<longrightarrow>
            num_value (parseIndianNumber (JStr s)) = run_value ip fp * 10 ^ 7) \<and>
         (\<not> str_includes (toLowerCase rest) (ascii ''cr'') \<and>
          (str_includes (toLowerCase rest) (ascii ''lac'') \<or>
           str_includes (toLowerCase rest) (ascii ''lakh'')) \<and>
          exact_double (run_value ip fp * 10 ^ 5) \<longrightarrow>
            num_value (parseIndianNumber (JStr s)) = run_value ip fp * 10 ^ 5) \<and>
         (\<not> str_includes (toLowerCase rest) (ascii ''cr'') \<and>
          \<not> str_includes (toLowerCase rest) (ascii ''lac'') \<and>
          \<not> str_includes (toLowerCase rest) (ascii ''lakh'') \<longrightarrow>
            num_value (parseIndianNumber (JStr s)) = run_value ip fp))) \<and>
   parseIndianNumber JNull = Dec 0 0 \<and>
   parseIndianNumber JUndefined = Dec 0 0 \<and>
   (trim s = [] \<or> trim s \<in> set SENTINELS \<or> no_digit s \<longrightarrow> parseIndianNumber (JStr s) = Dec 0 0) \<and>
   isFinite (parseIndianNumber v) \<and>
   parseIndianNumber (JStr (RUPEE # ascii ''1,23,456'')) = num_lit 123456 \<and>
   parseIndianNumber (JStr (ascii ''2.5 Cr'')) = num_lit 25000000 \<and>
   parseIndianNumber (JStr (ascii ''1 lakh'')) = num_lit 100000 \<and>
   parseIndianNumber (JStr (ascii ''--'')) = num_lit 0 \<and>
   parseIndianNumber (JStr (ascii ''500/-'')) = num_lit 500 \<and>
   parseIndianNumber (JStr (ascii ''2.5 Cr.'')) = num_lit 25000000 \<and>
   parseIndianNumber (JStr (ascii ''12 lakh 34'')) = num_lit 1200000 \<and>
   Number_toString (parseIndianNumber (JStr (ascii ''0.07 lakh''))) = ascii ''7000.000000000001''"
proof -
  have f: "filter (\<lambda>c. \<not> (c = RUPEE \<or> strip_class c \<or> c = 44)) s = strip_currency s"
    by (simp add: strip_currency_filter strippable_def)
  have ex: "\<not> no_digit s \<longrightarrow> (\<exists>pre ip fp rest. first_run (strip_currency s) pre ip fp rest)"
    using first_run_exists [OF digit_survives] by blast
  have fin: "isFinite (parseIndianNumber v)"
    using parseIndianNumber_finite_nonneg [of v] by auto
  have nul: "parseIndianNumber JNull = Dec 0 0" "parseIndianNumber JUndefined = Dec 0 0"
    by (simp_all add: parseIndianNumber_def)
  have str: "Number_toString (parseIndianNumber (JStr (ascii ''0.07 lakh'')))
      = ascii ''7000.000000000001''"
    by (simp only: parseIndianNumber_rounded_example toString_rounded_example)
  show ?thesis
    unfolding f
    using parseIndianNumber_strips [of s] ex parseIndianNumber_first_run [of s pre ip fp rest]
      parseIndianNumber_exact [of s pre ip fp rest]
      parseIndianNumber_zero [of s] fin nul parseIndianNumber_examples
      parseIndianNumber_rest_examples str
    by blast
qed

theorem currency_normalizer_correct_witness:
  "\<not> no_digit (RUPEE # ascii '' 1,234.50 Crores'') \<and>
   first_run (filter (\<lambda>c. \<not> (c = RUPEE \<or> strip_class c \<or> c = 44))
       (RUPEE # ascii '' 1,234.50 Crores''))
     [] (ascii ''1234'') (ascii ''50'') (ascii ''Crores'') \<and>
   str_includes (toLowerCase (ascii ''Crores'')) (ascii ''cr'') \<and>
   run_value (ascii ''1234'') (ascii ''50'') = 2469 / 2 \<and>
   exact_double (run_value (ascii ''1234'') (ascii ''50'')) \<and>
   exact_double (run_value (ascii ''1234'') (ascii ''50'') * 10 ^ 7) \<and>
   num_value (parseIndianNumber (JStr (RUPEE # ascii '' 1,234.50 Crores''))) = 12345000000 \<and>
   (\<exists>pre ip fp rest.
      first_run (filter (\<lambda>c. \<not> (c = RUPEE \<or> strip_class c \<or> c = 44))
        (RUPEE # ascii '' 1,234.50 Crores'')) pre ip fp rest) \<and>
   trim (ascii '' N/A '') \<in> set SENTINELS \<and>
   parseIndianNumber (JStr (ascii '' N/A '')) = Dec 0 0"
proof -
  let ?s = "RUPEE # ascii '' 1,234.50 Crores''"
  note T = currency_normalizer_correct [of ?s "[]" "ascii ''1234''" "ascii ''50''" "ascii ''Crores''"
      JNull]
  have dig: "\<not> no_digit ?s"
    by (simp add: no_digit_def ascii_def is_digit_def RUPEE_def)
  have shape: "first_run (filter (\<lambda>c. \<not> (c = RUPEE \<or> strip_class c \<or> c = 44)) ?s)
      [] (ascii ''1234'') (ascii ''50'') (ascii ''Crores'')"
    by (simp add: first_run_def ascii_def RUPEE_def strip_class_def is_space_def no_digit_def
        all_digits_def run_stops_def is_digit_def)
  have unit: "str_includes (toLowerCase (ascii ''Crores'')) (ascii ''cr'')"
    by (simp add: toLowerCase_def lower_unit_def ascii_def)
  have rv: "run_value (ascii ''1234'') (ascii ''50'') = 2469 / 2"
    by (simp add: run_value_def digits_val_def ascii_def)
  have e1: "exact_double (run_value (ascii ''1234'') (ascii ''50''))"
    unfolding rv exact_double_def by (simp add: num_eval)
  have e2: "exact_double (run_value (ascii ''1234'') (ascii ''50'') * 10 ^ 7)"
    unfolding rv exact_double_def by (simp add: num_eval)
  from T [THEN conjunct2, THEN conjunct2, THEN conjunct1, THEN mp, OF shape, THEN conjunct2,
      THEN mp, OF e1, THEN conjunct1, THEN mp, OF conjI [OF unit e2]]
  have v: "num_value (parseIndianNumber (JStr ?s)) = 12345000000"
    unfolding rv by simp
  from T [THEN conjunct2, THEN conjunct1, THEN mp, OF dig]
  have ex: "\<exists>pre ip fp rest.
      first_run (filter (\<lambda>c. \<not> (c = RUPEE \<or> strip_class c \<or> c = 44)) ?s) pre ip fp rest" .
  have sent: "trim (ascii '' N/A '') \<in> set SENTINELS"
    by (simp add: trim_def is_space_def SENTINELS_def ascii_def)
  note T2 = currency_normalizer_correct [of "ascii '' N/A ''" "[]" "[]" "[]" "[]" JNull]
  from T2 [THEN conjunct2, THEN conjunct2, THEN conjunct2, THEN conjunct2, THEN conjunct2,
      THEN conjunct1] sent
  have z: "parseIndianNumber (JStr (ascii '' N/A '')) = Dec 0 0"
    by blast
  from dig shape unit rv e1 e2 v ex sent z show ?thesis
    by blast
qed

lemma parseIndianNumber_overflow:
  assumes "ds \<noteq> []" "all_digits ds" "DBL_OVERFLOW \<le> int (digits_val ds)"
  shows "parseFloat ds = PosInf \<and> parseIndianNumber (JStr ds) = Dec 0 0"
proof -
  have "(of_int DBL_OVERFLOW :: rat) \<le> of_int (int (digits_val ds))"
    using assms(3) by (simp only: of_int_le_iff)
  then have "of_int DBL_OVERFLOW \<le> (of_int (int (digits_val ds)) :: rat) * 10 powi 0"
    by simp
  then have ov: "mk_number (int (digits_val ds)) 0 = PosInf"
    unfolding mk_number_def by (rule round_double_overflow)
  have pf: "parseFloat ds = PosInf"
    by (simp add: parseFloat_integer [OF assms(2,1)] ov)
  have clean: "strip_currency ds = [] @ ds @ (if ([]::jsstring) = [] then [] else 46 # []) @ []"
    using assms(2)
    by (simp add: strip_currency_filter all_digits_def list_all_iff digit_not_strippable)
  have "parseIndianNumber (JStr ds) =
      finite_or_zero (apply_unit (toLowerCase []) (mk_number (int (digits_val (ds @ []))) (- int (length ([]::jsstring)))))"
    using assms
    by (intro parseIndianNumber_run [OF clean])
       (simp_all add: no_digit_def all_digits_def run_stops_def no_fraction_def)
  then have "parseIndianNumber (JStr ds) = Dec 0 0"
    by (simp add: toLowerCase_def apply_unit_empty ov finite_or_zero_def)
  with pf show ?thesis
    by simp
qed

text \<open>
  C10. For every input value the normalizer returns a finite number that is not negative:
  a leading minus sign is dropped (the text "-5" and the number -5 both give 5), and a
  text of digits whose value overflows a double, which \<open>parseFloat\<close> reads as
  infinity, gives 0.
\<close>

theorem currency_finite_nonnegative:
  "(\<exists>m e. parseIndianNumber v = Dec m e \<and> 0 \<le> m) \<and>
   parseIndianNumber (JStr (ascii ''-5'')) = Dec 5 0 \<and>
   parseIndianNumber (JNum (Dec (- 5) 0)) = Dec 5 0 \<and>
   (ds \<noteq> [] \<and> all_digits ds \<and> DBL_OVERFLOW \<le> int (digits_val ds) \<longrightarrow>
      parseFloat ds = PosInf \<and> parseIndianNumber (JStr ds) = Dec 0 0)"
proof -
  have a: "parseIndianNumber (JStr (ascii ''-5'')) = Dec 5 0"
    by (simp add: text_defs) (simp add: num_eval)
  have "Number_toString (Dec (- 5) 0) = ascii ''-5''"
    by (simp add: print_defs)
  then have b: "parseIndianNumber (JNum (Dec (- 5) 0)) = Dec 5 0"
    using a by (simp add: parseIndianNumber_def)
  from parseIndianNumber_finite_nonneg [of v] a b parseIndianNumber_overflow [of ds]
  show ?thesis
    by blast
qed

theorem currency_finite_nonnegative_witness:
  "(49 # replicate 309 48) \<noteq> [] \<and> all_digits (49 # replicate 309 48) \<and>
   DBL_OVERFLOW \<le> int (digits_val (49 # replicate 309 48)) \<and>
   parseFloat (49 # replicate 309 48) = PosInf \<and>
   parseIndianNumber (JStr (49 # replicate 309 48)) = Dec 0 0 \<and>
   (\<exists>m e. parseIndianNumber (JStr (49 # replicate 309 48)) = Dec m e \<and> 0 \<le> m)"
proof -
  let ?ds = "49 # replicate 309 48"
  have d: "all_digits ?ds"
    by (simp add: all_digits_def is_digit_def list_all_iff)
  have "digits_val ?ds = digits_val ([49] @ replicate 309 48)"
    by simp
  also have "\<dots> = 10 ^ 309"
    by (simp only: digits_val_append digits_val_zeros digits_val_single length_replicate) simp
  finally have v: "digits_val ?ds = 10 ^ 309" .
  have big: "DBL_OVERFLOW \<le> int (digits_val ?ds)"
    unfolding v by (simp add: DBL_OVERFLOW_def)
  note T = currency_finite_nonnegative [of "JStr ?ds" ?ds]
  from T d big have "parseFloat ?ds = PosInf \<and> parseIndianNumber (JStr ?ds) = Dec 0 0"
    by blast
  with T d big show ?thesis
    by blast
qed

subsubsection \<open>The results are doubles\<close>

lemma mk_number_double: "0 \<le> m \<Longrightarrow> double_num (mk_number m e)"
proof -
  assume "0 \<le> m"
  then have nn: "(0::rat) \<le> of_int m * 10 powi e"
    by simp
  show ?thesis
  proof (cases "(of_int m :: rat) * 10 powi e = 0")
    case True
    then show ?thesis
      by (simp add: mk_number_def round_double_def)
  next
    case False
    with \<open>0 \<le> m\<close> have "0 < m"
      by (cases "m = 0") simp_all
    then have pos: "(0::rat) < of_int m * 10 powi e"
      by simp
    show ?thesis
    proof (cases "round_double (of_int m * 10 powi e)")
      case (Dec m' e')
      from round_double_fixed [OF pos Dec] Dec show ?thesis
        by (simp add: mk_number_def)
    qed (simp_all add: mk_number_def)
  qed
qed

lemma parseFloat_double: "double_num (parseFloat s)"
  by (simp add: parseFloat_def Let_def mk_number_double)

lemma fmul_double: "nonneg_num x \<Longrightarrow> nonneg_num y \<Longrightarrow> double_num (fmul x y)"
  by (cases x; cases y) (simp_all add: mk_number_double)

lemma apply_unit_double:
  "nonneg_num x \<Longrightarrow> double_num x \<Longrightarrow> double_num (apply_unit sfx x)"
  by (simp add: apply_unit_def fmul_double num_lit_nonneg)

lemma mk_number_zero: "mk_number 0 0 = Dec 0 0"
  by (simp add: mk_number_def round_double_def)

lemma zero_double: "double_num (Dec 0 0)"
  by (simp add: mk_number_zero)

lemma finite_or_zero_double: "double_num x \<Longrightarrow> double_num (finite_or_zero x)"
  by (simp add: finite_or_zero_def mk_number_zero)

lemma parse_stripped_double: "double_num (parse_stripped t)"
proof (cases "match_number t")
  case None
  then show ?thesis
    by (simp add: parse_stripped_def mk_number_zero)
next
  case (Some p)
  obtain i m0 where p: "p = (i, m0)"
    by (cases p)
  from finite_or_zero_double [OF apply_unit_double [OF parseFloat_nonneg parseFloat_double]]
  show ?thesis
    by (simp add: parse_stripped_def Some p)
qed

lemma parseIndianNumber_double: "double_num (parseIndianNumber v)"
proof (cases "v = JNull \<or> v = JUndefined")
  case True
  then show ?thesis
    by (auto simp: parseIndianNumber_def mk_number_zero)
next
  case False
  then have "parseIndianNumber v = parseIndianNumber (JStr (String_of v))"
    by (simp add: parseIndianNumber_def)
  then show ?thesis
    by (simp add: parseIndianNumber_stripped parse_stripped_double)
qed

subsubsection \<open>The shortest decimal of a double\<close>

lemma shortest_from_rounds:
  "mk_number m e = Dec m e \<Longrightarrow> shortest_from m e d = (s, e') \<Longrightarrow> mk_number s e' = Dec m e"
proof (induction d)
  case 0
  then show ?case
    by simp
next
  case (Suc j)
  from Suc.prems(2) show ?case
    by (simp split: if_splits add: Suc.IH [OF Suc.prems(1)])
qed

lemma int_div_bounds:
  fixes m p :: int
  assumes "0 < p" "c * p \<le> m" "m < c' * p"
  shows "c \<le> m div p \<and> m div p + 1 \<le> c'"
proof -
  have "c * p div p \<le> m div p"
    using assms(1,2) by (intro zdiv_mono1)
  then have lo: "c \<le> m div p"
    using assms(1) by simp
  have "m div p < c'"
  proof (rule ccontr)
    assume "\<not> m div p < c'"
    then have "p * c' \<le> p * (m div p)"
      using assms(1) by simp
    moreover have "p * (m div p) + m mod p = m"
      by (rule mult_div_mod_eq)
    moreover have "0 \<le> m mod p"
      using assms(1) by (rule pos_mod_sign)
    ultimately have "p * c' \<le> m"
      by linarith
    then show False
      using assms(3) by (simp add: mult.commute)
  qed
  with lo show ?thesis
    by simp
qed

lemma shortest_from_bounds:
  assumes "0 < m" "d < length (digits_of (nat m))" "shortest_from m e d = (s, e')"
  shows "0 < s \<and>
         (10::rat) ^ (length (digits_of (nat m)) - 1) * 10 powi e \<le> of_int s * 10 powi e' \<and>
         (of_int s :: rat) * 10 powi e' \<le> 10 ^ length (digits_of (nat m)) * 10 powi e"
  using assms(2,3)
proof (induction d)
  case 0
  define K where "K = length (digits_of (nat m))"
  from digits_of_length_bounds [of "nat m"] assms(1)
  have "10 ^ (K - 1) \<le> nat m" "nat m < 10 ^ K"
    by (simp_all add: K_def)
  then have "(of_nat (10 ^ (K - 1)) :: rat) \<le> of_nat (nat m)" "(of_nat (nat m) :: rat) \<le> of_nat (10 ^ K)"
    by (simp_all only: of_nat_le_iff)
  then have "(10::rat) ^ (K - 1) \<le> of_int m" "(of_int m :: rat) \<le> 10 ^ K"
    using assms(1) by simp_all
  then have "(10::rat) ^ (K - 1) * 10 powi e \<le> of_int m * 10 powi e"
    "(of_int m :: rat) * 10 powi e \<le> 10 ^ K * 10 powi e"
    by (simp_all add: mult_right_mono)
  with 0 assms(1) show ?case
    by (simp add: K_def)
next
  case (Suc j)
  define K where "K = length (digits_of (nat m))"
  define p :: int where "p = 10 ^ Suc j"
  define a where "a = K - 1 - Suc j"
  have K1: "K - 1 = a + Suc j" and K: "K = Suc a + Suc j"
    using Suc.prems(1) by (simp_all add: a_def K_def)
  have p: "0 < p"
    by (simp add: p_def)
  from digits_of_length_bounds [of "nat m"] assms(1)
  have "10 ^ (K - 1) \<le> nat m" "nat m < 10 ^ K"
    by (simp_all add: K_def)
  then have "int (10 ^ (K - 1)) \<le> int (nat m)" "int (nat m) < int (10 ^ K)"
    by (simp_all only: of_nat_le_iff of_nat_less_iff)
  then have "10 ^ a * p \<le> m" "m < 10 ^ Suc a * p"
    using assms(1) unfolding K1 K p_def by (simp_all add: power_add)
  from int_div_bounds [OF p this]
  have lo: "10 ^ a \<le> m div p" and hi: "m div p + 1 \<le> 10 ^ Suc a"
    by simp_all
  have pe: "(10::rat) powi (e + int (Suc j)) = of_int p * 10 powi e"
    by (simp add: power_int_add p_def)
  have low: "(10::rat) ^ (K - 1) * 10 powi e \<le> of_int (m div p) * 10 powi (e + int (Suc j))"
  proof -
    have "(of_int (10 ^ a) :: rat) \<le> of_int (m div p)"
      using lo by (simp only: of_int_le_iff)
    then have "(of_int (10 ^ a) :: rat) * (of_int p * 10 powi e) \<le> of_int (m div p) * (of_int p * 10 powi e)"
      using p by (intro mult_right_mono) simp_all
    then show ?thesis
      unfolding pe K1 by (simp add: p_def power_add)
  qed
  have high: "(of_int (m div p + 1) :: rat) * 10 powi (e + int (Suc j)) \<le> 10 ^ K * 10 powi e"
  proof -
    have "(of_int (m div p + 1) :: rat) \<le> of_int (10 ^ Suc a)"
      using hi by (simp only: of_int_le_iff)
    then have "(of_int (m div p + 1) :: rat) * (of_int p * 10 powi e) \<le> of_int (10 ^ Suc a) * (of_int p * 10 powi e)"
      using p by (intro mult_right_mono) simp_all
    then show ?thesis
      unfolding pe K by (simp add: p_def power_add)
  qed
  have step: "(of_int (m div p) :: rat) * 10 powi (e + int (Suc j))
      \<le> of_int (m div p + 1) * 10 powi (e + int (Suc j))"
    by (intro mult_right_mono) simp_all
  have high_lo: "(of_int (m div p) :: rat) * 10 powi (e + int (Suc j)) \<le> 10 ^ K * 10 powi e"
    using step high by (rule order_trans)
  have low_hi: "(10::rat) ^ (K - 1) * 10 powi e \<le> of_int (m div p + 1) * 10 powi (e + int (Suc j))"
    using low step by (rule order_trans)
  have pos: "0 < m div p"
    using lo by (simp add: less_le_trans [of 0 "10 ^ a" "m div p"])
  have j: "j < length (digits_of (nat m))"
    using Suc.prems(1) by simp
  consider (lo) "s = m div p" "e' = e + int (Suc j)"
    | (hi) "s = m div p + 1" "e' = e + int (Suc j)"
    | (rec) "shortest_from m e j = (s, e')"
    using Suc.prems(2) by (auto simp: p_def split: if_splits)
  then show ?case
  proof cases
    case lo
    with low high_lo pos show ?thesis
      unfolding K_def by simp
  next
    case hi
    with low_hi high pos show ?thesis
      unfolding K_def by simp
  next
    case rec
    from Suc.IH [OF j rec] show ?thesis .
  qed
qed

subsubsection \<open>Printing a number and reading it back\<close>

lemma dot_not_strippable: "\<not> strippable 46"
  by (simp add: strippable_def strip_class_def is_space_def RUPEE_def)

lemma strip_currency_digits: "all_digits a \<Longrightarrow> strip_currency a = a"
  by (simp add: strip_currency_filter all_digits_def list_all_iff digit_not_strippable)

lemma strip_currency_decimal:
  "all_digits a \<Longrightarrow> all_digits b \<Longrightarrow> strip_currency (a @ 46 # b) = a @ 46 # b"
  by (simp add: strip_currency_filter all_digits_def list_all_iff digit_not_strippable
      dot_not_strippable)

lemma parseIndianNumber_digits:
  assumes "all_digits a" "a \<noteq> []"
  shows "parseIndianNumber (JStr a) = finite_or_zero (mk_number (int (digits_val a)) 0)"
proof -
  have clean: "strip_currency a = [] @ a @ (if ([]::jsstring) = [] then [] else 46 # []) @ []"
    by (simp add: strip_currency_digits [OF assms(1)])
  have "parseIndianNumber (JStr a) =
      finite_or_zero (apply_unit (toLowerCase [])
        (mk_number (int (digits_val (a @ []))) (- int (length ([]::jsstring)))))"
    using assms
    by (intro parseIndianNumber_run [OF clean])
       (simp_all add: no_digit_def all_digits_def run_stops_def no_fraction_def)
  then show ?thesis
    by (simp add: toLowerCase_def apply_unit_empty)
qed

lemma parseIndianNumber_decimal:
  assumes "all_digits a" "a \<noteq> []" "all_digits b" "b \<noteq> []"
  shows "parseIndianNumber (JStr (a @ 46 # b)) =
           finite_or_zero (mk_number (int (digits_val (a @ b))) (- int (length b)))"
proof -
  have clean: "strip_currency (a @ 46 # b) = [] @ a @ (if b = [] then [] else 46 # b) @ []"
    using assms(4) by (simp add: strip_currency_decimal [OF assms(1,3)])
  have "parseIndianNumber (JStr (a @ 46 # b)) =
      finite_or_zero (apply_unit (toLowerCase [])
        (mk_number (int (digits_val (a @ b))) (- int (length b))))"
    using assms
    by (intro parseIndianNumber_run [OF clean])
       (simp_all add: no_digit_def all_digits_def run_stops_def no_fraction_def)
  then show ?thesis
    by (simp add: toLowerCase_def apply_unit_empty)
qed

lemma plain_range:
  fixes m :: nat and e :: int
  assumes "0 < m"
    and lo: "1 / 10 ^ 6 \<le> (of_nat m :: rat) * 10 powi e"
    and hi: "(of_nat m :: rat) * 10 powi e < 10 ^ 21"
  shows "- 6 < int (length (digits_of m)) + e \<and> int (length (digits_of m)) + e \<le> 21"
proof -
  let ?k = "length (digits_of m)"
  from digits_of_length_bounds [OF assms(1)]
  have b1: "10 ^ (?k - 1) \<le> m" and b2: "m < 10 ^ ?k"
    by simp_all
  have kpos: "0 < ?k"
    using digits_of_nonempty [of m] by simp
  have p: "(0::rat) < 10 powi e"
    by simp
  have up: "int ?k + e \<le> 21"
  proof (rule ccontr)
    assume "\<not> int ?k + e \<le> 21"
    then have ge: "21 \<le> int (?k - 1) + e"
      using kpos by linarith
    have "(10::rat) powi 21 \<le> 10 powi (int (?k - 1) + e)"
      using ge by (intro power_int_increasing) simp_all
    also have "\<dots> = 10 ^ (?k - 1) * 10 powi e"
      by (simp add: power_int_add)
    also have "\<dots> \<le> of_nat m * 10 powi e"
    proof -
      have "(of_nat (10 ^ (?k - 1)) :: rat) \<le> of_nat m"
        using b1 by (simp only: of_nat_le_iff)
      then have "(10 ^ (?k - 1) :: rat) \<le> of_nat m"
        by simp
      then show ?thesis
        using p by (simp add: mult_right_mono)
    qed
    finally show False
      using hi by simp
  qed
  have down: "- 6 < int ?k + e"
  proof (rule ccontr)
    assume "\<not> - 6 < int ?k + e"
    then have le: "int ?k + e \<le> - 6"
      by simp
    have "(of_nat m :: rat) < of_nat (10 ^ ?k)"
      using b2 by (simp only: of_nat_less_iff)
    then have "(of_nat m :: rat) < 10 ^ ?k"
      by simp
    then have "(of_nat m :: rat) * 10 powi e < 10 ^ ?k * 10 powi e"
      using p by (simp add: mult_strict_right_mono)
    also have "\<dots> = 10 powi (int ?k + e)"
      by (simp add: power_int_add)
    also have "\<dots> \<le> 10 powi (- 6)"
      using le by (intro power_int_increasing) simp_all
    also have "\<dots> = 1 / 10 ^ 6"
      by (simp add: power_int_minus field_simps)
    finally show False
      using lo by simp
  qed
  from up down show ?thesis
    by simp
qed

lemma roundtrip_print:
  assumes pos: "0 < m" and canon: "m mod 10 \<noteq> 0"
    and lo: "1 / 10 ^ 6 \<le> (of_int m :: rat) * 10 powi e"
    and hi: "(of_int m :: rat) * 10 powi e < 10 ^ 21"
  shows "parseIndianNumber (JStr (pos_toString (nat m) e)) = finite_or_zero (mk_number m e)"
proof -
  define ds where "ds = digits_of (nat m)"
  define k where "k = int (length ds)"
  have m_nat: "(of_nat (nat m) :: rat) = of_int m"
    using pos by simp
  have dig: "all_digits ds"
    by (simp add: ds_def digits_of_all_digits)
  have val: "digits_val ds = nat m"
    by (simp add: ds_def digits_val_digits_of)
  have kpos: "0 < k"
    using digits_of_nonempty [of "nat m"] by (simp add: k_def ds_def)
  from plain_range [of "nat m" e] pos lo hi
  have range: "- 6 < k + e" "k + e \<le> 21"
    by (simp_all add: m_nat k_def ds_def)
  consider (whole) "k \<le> k + e" | (point) "0 < k + e" "k + e < k" | (small) "k + e \<le> 0"
    by linarith
  then show ?thesis
  proof cases
    case whole
    then have e0: "0 \<le> e"
      by simp
    have str: "pos_toString (nat m) e = ds @ replicate (nat e) 48"
      using whole range by (simp add: pos_toString_def Let_def ds_def [symmetric] k_def [symmetric])
    have d2: "all_digits (ds @ replicate (nat e) 48)"
      using dig by (auto simp: all_digits_def is_digit_def list_all_iff)
    have ne: "ds @ replicate (nat e) 48 \<noteq> []"
      using kpos by (auto simp: k_def)
    have v2: "int (digits_val (ds @ replicate (nat e) 48)) = m * 10 ^ nat e"
      using pos by (simp add: digits_val_append digits_val_zeros val)
    have "(of_int (m * 10 ^ nat e) :: rat) * 10 powi 0 = of_int m * 10 powi e"
      using e0 by (simp add: power_int_def)
    then have "mk_number (m * 10 ^ nat e) 0 = mk_number m e"
      by (simp only: mk_number_def)
    then show ?thesis
      unfolding str parseIndianNumber_digits [OF d2 ne] v2 by (simp only:)
  next
    case point
    have str: "pos_toString (nat m) e = take (nat (k + e)) ds @ 46 # drop (nat (k + e)) ds"
      using point range by (simp add: pos_toString_def Let_def ds_def [symmetric] k_def [symmetric])
    have a: "all_digits (take (nat (k + e)) ds)" and b: "all_digits (drop (nat (k + e)) ds)"
      using dig by (auto simp: all_digits_def list_all_iff dest: in_set_takeD in_set_dropD)
    have ane: "take (nat (k + e)) ds \<noteq> []"
      using point kpos by (auto simp: k_def)
    have bne: "drop (nat (k + e)) ds \<noteq> []"
      using point by (simp add: k_def)
    have len: "- int (length (drop (nat (k + e)) ds)) = e"
      using point by (simp add: k_def)
    show ?thesis
      unfolding str parseIndianNumber_decimal [OF a ane b bne] len
      using pos by (simp add: val)
  next
    case small
    have str: "pos_toString (nat m) e = [48] @ 46 # (replicate (nat (- (k + e))) 48 @ ds)"
      using small range kpos
      by (simp add: pos_toString_def Let_def ds_def [symmetric] k_def [symmetric])
    have a: "all_digits [48]"
      by (simp add: all_digits_def is_digit_def)
    have ane: "[48::nat] \<noteq> []"
      by simp
    have b: "all_digits (replicate (nat (- (k + e))) 48 @ ds)"
      using dig by (auto simp: all_digits_def is_digit_def list_all_iff)
    have bne: "replicate (nat (- (k + e))) 48 @ ds \<noteq> []"
      using kpos by (auto simp: k_def)
    have len: "- int (length (replicate (nat (- (k + e))) 48 @ ds)) = e"
      using small by (simp add: k_def)
    have "digits_val ([48] @ (replicate (nat (- (k + e))) 48 @ ds))
        = digits_val [48] * 10 ^ length (replicate (nat (- (k + e))) 48 @ ds)
          + (digits_val (replicate (nat (- (k + e))) 48) * 10 ^ length ds + digits_val ds)"
      by (simp only: digits_val_append)
    also have "\<dots> = nat m"
      by (simp only: digits_val_zeros digits_val_single val) simp
    finally have v: "int (digits_val ([48] @ (replicate (nat (- (k + e))) 48 @ ds))) = m"
      using pos by simp
    show ?thesis
      unfolding str parseIndianNumber_decimal [OF a ane b bne] len v
      by (simp only:)
  qed
qed


lemma roundtrip_zero: "parseIndianNumber (JStr (Number_toString (Dec 0 0))) = Dec 0 0"
  by (simp add: norm_dec.simps text_defs) (simp add: num_eval)

lemma ten_to_21: "round_double (10 ^ 21) = Dec 1 21"
  by (simp add: num_eval)

lemma roundtrip_double:
  assumes pos: "0 < m" and can: "canonical m e" and fixed: "mk_number m e = Dec m e"
    and lo: "1 / 10 ^ 6 \<le> (of_int m :: rat) * 10 powi e"
    and hi: "(of_int m :: rat) * 10 powi e < 10 ^ 21"
  shows "parseIndianNumber (JStr (shortest_toString m e)) = Dec m e"
proof -
  define K where "K = length (digits_of (nat m))"
  have Kpos: "0 < K"
    using digits_of_nonempty [of "nat m"] by (simp add: K_def)
  obtain s0 e0 where sf: "shortest_from m e (K - 1) = (s0, e0)"
    by (cases "shortest_from m e (K - 1)")
  obtain s e' where nd: "norm_dec s0 e0 = (s, e')"
    by (cases "norm_dec s0 e0")
  have sd: "shortest_decimal m e = (s, e')"
    unfolding shortest_decimal_def K_def [symmetric] sf by (simp add: nd)
  have val: "(of_int s :: rat) * 10 powi e' = of_int s0 * 10 powi e0"
    by (rule norm_dec_value [OF nd])
  from shortest_from_rounds [OF fixed sf] have r0: "mk_number s0 e0 = Dec m e" .
  then have r: "mk_number s e' = Dec m e"
    by (simp only: mk_number_def val)
  have d: "K - 1 < length (digits_of (nat m))"
    using Kpos by (simp add: K_def)
  from shortest_from_bounds [OF pos d sf]
  have s0pos: "0 < s0"
    and b1: "(10::rat) ^ (K - 1) * 10 powi e \<le> of_int s0 * 10 powi e0"
    and b2: "(of_int s0 :: rat) * 10 powi e0 \<le> 10 ^ K * 10 powi e"
    by (simp_all add: K_def)
  have vpos: "(0::rat) < of_int s * 10 powi e'"
    unfolding val using s0pos by simp
  then have "s \<noteq> 0"
    by auto
  moreover have "0 \<le> s"
    using norm_dec_nonneg [OF _ nd] s0pos by simp
  ultimately have spos: "0 < s"
    by simp
  from norm_dec_gives_canonical [OF nd] spos have scan: "s mod 10 \<noteq> 0"
    by (simp add: canonical_def)
  have m_nat: "(of_nat (nat m) :: rat) = of_int m"
    using pos by simp
  from plain_range [of "nat m" e] pos lo hi
  have range: "- 6 < int K + e" "int K + e \<le> 21"
    by (simp_all add: m_nat K_def)
  have "(1::rat) / 10 ^ 6 = 10 powi (- 6)"
    by (simp add: power_int_minus field_simps)
  also have "\<dots> \<le> 10 powi (int (K - 1) + e)"
    using range(1) Kpos by (intro power_int_increasing) simp_all
  also have "\<dots> = 10 ^ (K - 1) * 10 powi e"
    by (simp add: power_int_add)
  finally have slo: "1 / 10 ^ 6 \<le> (of_int s :: rat) * 10 powi e'"
    unfolding val using b1 by simp
  have "(10::rat) ^ K * 10 powi e = 10 powi (int K + e)"
    by (simp add: power_int_add)
  also have "\<dots> \<le> 10 powi 21"
    using range(2) by (intro power_int_increasing) simp_all
  finally have le21: "(of_int s :: rat) * 10 powi e' \<le> 10 ^ 21"
    unfolding val using b2 by simp
  have "(of_int s :: rat) * 10 powi e' \<noteq> 10 ^ 21"
  proof
    assume a: "(of_int s :: rat) * 10 powi e' = 10 ^ 21"
    from r have "round_double (of_int s * 10 powi e') = Dec m e"
      by (simp only: mk_number_def)
    then have "round_double (10 ^ 21) = Dec m e"
      by (simp only: a)
    with ten_to_21 have "m = 1 \<and> e = 21"
      by simp
    with hi show False
      by simp
  qed
  with le21 have shi: "(of_int s :: rat) * 10 powi e' < 10 ^ 21"
    by simp
  have "parseIndianNumber (JStr (pos_toString (nat s) e')) = finite_or_zero (mk_number s e')"
    by (rule roundtrip_print [OF spos scan slo shi])
  then show ?thesis
    by (simp add: shortest_toString_def sd r finite_or_zero_def)
qed

text \<open>
  C8, as the program has it. When the result of the normalizer is 0, or lies from
  0.000001 up to but not including 10 to the power 21 (the numbers whose decimal string is
  plain digits with an optional fraction), normalizing its decimal string gives the same
  number again.
\<close>

theorem currency_idempotent_in_plain_range:
  assumes "parseIndianNumber v = Dec 0 0 \<or>
           (1 / 10 ^ 6 \<le> num_value (parseIndianNumber v) \<and> num_value (parseIndianNumber v) < 10 ^ 21)"
  shows "parseIndianNumber (JStr (Number_toString (parseIndianNumber v))) = parseIndianNumber v"
proof -
  from parseIndianNumber_finite_nonneg [of v] obtain m e
    where r: "parseIndianNumber v = Dec m e" and nn: "0 \<le> m"
    by blast
  from parseIndianNumber_canonical [of v] r have can: "canonical m e"
    by simp
  show ?thesis
  proof (cases "m = 0")
    case True
    with can have "e = 0"
      by (simp add: canonical_def)
    with True r have r0: "parseIndianNumber v = Dec 0 0"
      by simp
    show ?thesis
      unfolding r0 by (rule roundtrip_zero)
  next
    case False
    with nn have pos: "0 < m"
      by simp
    from False can have c: "m mod 10 \<noteq> 0"
      by (simp add: canonical_def)
    from False r assms have lo: "1 / 10 ^ 6 \<le> (of_int m :: rat) * 10 powi e"
      and hi: "(of_int m :: rat) * 10 powi e < 10 ^ 21"
      by simp_all
    from parseIndianNumber_double [of v] r have fixed: "mk_number m e = Dec m e"
      by simp
    have "Number_toString (Dec m e) = shortest_toString m e"
      using pos by (simp add: norm_dec_canonical [OF can])
    with roundtrip_double [OF pos can fixed lo hi] show ?thesis
      unfolding r by (simp only:)
  qed
qed

theorem currency_idempotent_in_plain_range_witness:
  "1 / 10 ^ 6 \<le> num_value (parseIndianNumber (JStr (ascii ''2.5 Cr''))) \<and>
   num_value (parseIndianNumber (JStr (ascii ''2.5 Cr''))) < 10 ^ 21 \<and>
   Number_toString (parseIndianNumber (JStr (ascii ''2.5 Cr''))) = ascii ''25000000'' \<and>
   parseIndianNumber (JStr (ascii ''25000000'')) = parseIndianNumber (JStr (ascii ''2.5 Cr''))"
proof -
  have r: "parseIndianNumber (JStr (ascii ''2.5 Cr'')) = Dec 25 6"
    by (simp add: text_defs) (simp add: num_lit_def num_eval)
  have h: "1 / 10 ^ 6 \<le> num_value (parseIndianNumber (JStr (ascii ''2.5 Cr''))) \<and>
      num_value (parseIndianNumber (JStr (ascii ''2.5 Cr''))) < 10 ^ 21"
    by (simp add: r)
  have sd: "shortest_decimal 25 6 = (25, 6)"
    by (simp add: shortest_decimal_def digits_of.simps num_eval)
  have t: "Number_toString (parseIndianNumber (JStr (ascii ''2.5 Cr''))) = ascii ''25000000''"
    unfolding r
    by (simp add: norm_dec.simps shortest_toString_def sd pos_toString_def digits_of.simps
        ascii_def replicate_numeral)
  from currency_idempotent_in_plain_range [OF disjI2, OF h]
  have "parseIndianNumber (JStr (ascii ''25000000'')) = parseIndianNumber (JStr (ascii ''2.5 Cr''))"
    unfolding t .
  with h t show ?thesis
    by blast
qed

text \<open>
  C8 in the wording of the specification (for every input) does not hold where the
  decimal string of the result is in exponent notation: the text of 1 followed by 21 zeros
  gives 10 to the power 21, whose string is "1e+21", which is normalized to 1; the text
  "0.0000001" gives a number whose string is "1e-7", which is normalized to 1.
\<close>

theorem currency_not_idempotent:
  "parseIndianNumber (JStr (Number_toString
      (parseIndianNumber (JStr (ascii ''1000000000000000000000'')))))
     \<noteq> parseIndianNumber (JStr (ascii ''1000000000000000000000'')) \<and>
   parseIndianNumber (JStr (ascii ''1000000000000000000000'')) = Dec 1 21 \<and>
   Number_toString (Dec 1 21) = ascii ''1e+21'' \<and>
   parseIndianNumber (JStr (ascii ''1e+21'')) = Dec 1 0 \<and>
   parseIndianNumber (JStr (Number_toString (parseIndianNumber (JStr (ascii ''0.0000001'')))))
     \<noteq> parseIndianNumber (JStr (ascii ''0.0000001'')) \<and>
   Number_toString (parseIndianNumber (JStr (ascii ''0.0000001''))) = ascii ''1e-7'' \<and>
   parseIndianNumber (JStr (ascii ''1e-7'')) = Dec 1 0"
proof -
  have a: "parseIndianNumber (JStr (ascii ''1000000000000000000000'')) = Dec 1 21"
    by (simp add: text_defs) (simp add: num_eval)
  have sa: "shortest_decimal 1 21 = (1, 21)"
    by (simp add: shortest_decimal_def digits_of.simps norm_dec.simps)
  have ta: "Number_toString (Dec 1 21) = ascii ''1e+21''"
    by (simp add: norm_dec.simps shortest_toString_def sa pos_toString_def digits_of.simps ascii_def)
  have pa: "parseIndianNumber (JStr (ascii ''1e+21'')) = Dec 1 0"
    by (simp add: text_defs) (simp add: num_eval)
  have b: "parseIndianNumber (JStr (ascii ''0.0000001''))
      = Dec 999999999999999954748111825886258685613938723690807819366455078125 (- 73)"
    by (simp add: text_defs) (simp add: num_eval)
  have nb: "norm_dec 999999999999999954748111825886258685613938723690807819366455078125 (- 73)
      = (999999999999999954748111825886258685613938723690807819366455078125, - 73)"
    by (simp add: norm_dec.simps)
  have sb: "shortest_decimal 999999999999999954748111825886258685613938723690807819366455078125 (- 73)
      = (1, - 7)"
    by (simp add: shortest_decimal_def digits_of.simps num_eval)
  have tb: "Number_toString (parseIndianNumber (JStr (ascii ''0.0000001''))) = ascii ''1e-7''"
    unfolding b
    by (simp add: nb shortest_toString_def sb pos_toString_def digits_of.simps ascii_def)
  have pb: "parseIndianNumber (JStr (ascii ''1e-7'')) = Dec 1 0"
    by (simp add: text_defs) (simp add: num_eval)
  from a ta pa b tb pb show ?thesis
    by simp
qed

end
